theory Spec2Isabelle
  imports Complex_Main "HOL-Library.AList" "HOL-Library.Code_Target_Nat"
begin

section \<open>Strings as the extractor sees them\<close>

text \<open>
  A JavaScript string is modelled as a \<^typ>\<open>string\<close>: a list of code units, here restricted
  to the range U+0000..U+00FF. The character classes below are the ones the regular
  expressions and \<^verbatim>\<open>String.prototype.trim\<close> of the source use, cut down to that range.
\<close>

definition code :: "char \<Rightarrow> nat" where
  "code c = of_char c"

text \<open>\<^verbatim>\<open>\s\<close> and the set removed by \<^verbatim>\<open>trim()\<close>: TAB, LF, VT, FF, CR, SPACE, NBSP.\<close>

definition isWhitespace :: "char \<Rightarrow> bool" where
  "isWhitespace c = (code c \<in> {9, 10, 11, 12, 13, 32, 160})"

text \<open>The characters \<^verbatim>\<open>.\<close> does not match.\<close>

definition isLineTerminator :: "char \<Rightarrow> bool" where
  "isLineTerminator c = (code c \<in> {10, 13})"

definition isUpper :: "char \<Rightarrow> bool" where
  "isUpper c = (65 \<le> code c \<and> code c \<le> 90)"

definition isLower :: "char \<Rightarrow> bool" where
  "isLower c = (97 \<le> code c \<and> code c \<le> 122)"

definition isDigit :: "char \<Rightarrow> bool" where
  "isDigit c = (48 \<le> code c \<and> code c \<le> 57)"

text \<open>\<^verbatim>\<open>[a-zA-Z]\<close>\<close>

definition isLetter :: "char \<Rightarrow> bool" where
  "isLetter c = (isUpper c \<or> isLower c)"

text \<open>\<^verbatim>\<open>\w\<close>\<close>

definition isWordChar :: "char \<Rightarrow> bool" where
  "isWordChar c = (isLetter c \<or> isDigit c \<or> c = CHR ''_'')"

text \<open>\<^verbatim>\<open>[a-zA-Z0-9_-]\<close>\<close>

definition isCommandChar :: "char \<Rightarrow> bool" where
  "isCommandChar c = (isWordChar c \<or> c = CHR ''-'')"

text \<open>\<^verbatim>\<open>toLowerCase()\<close> on one code unit below U+0100.\<close>

definition lowerChar :: "char \<Rightarrow> char" where
  "lowerChar c =
     (if isUpper c \<or> (192 \<le> code c \<and> code c \<le> 222 \<and> code c \<noteq> 215)
      then char_of (code c + 32) else c)"

definition toLowerCase :: "string \<Rightarrow> string" where
  "toLowerCase s = map lowerChar s"

definition trim :: "string \<Rightarrow> string" where
  "trim s = rev (dropWhile isWhitespace (rev (dropWhile isWhitespace s)))"

definition startsWith :: "string \<Rightarrow> string \<Rightarrow> bool" where
  "startsWith s p = (take (length p) s = p)"

text \<open>\<^verbatim>\<open>s.split('\n')\<close>: always at least one piece.\<close>

fun splitLines :: "string \<Rightarrow> string list" where
  "splitLines [] = [[]]"
| "splitLines (c # cs) =
     (if c = CHR 0x0A then [] # splitLines cs
      else (case splitLines cs of l # ls \<Rightarrow> (c # l) # ls | [] \<Rightarrow> [[c]]))"

text \<open>\<^verbatim>\<open>a.join(' ')\<close>\<close>

fun joinSpace :: "string list \<Rightarrow> string" where
  "joinSpace [] = []"
| "joinSpace [x] = x"
| "joinSpace (x # y # ys) = x @ CHR '' '' # joinSpace (y # ys)"

text \<open>\<^verbatim>\<open>\b\<close> at position \<open>i\<close> of \<open>s\<close>: exactly one side is a word character.\<close>

definition wordCharAt :: "string \<Rightarrow> nat \<Rightarrow> bool" where
  "wordCharAt s i = (i < length s \<and> isWordChar (s ! i))"

definition wordBoundary :: "string \<Rightarrow> nat \<Rightarrow> bool" where
  "wordBoundary s i = ((0 < i \<and> wordCharAt s (i - 1)) \<noteq> wordCharAt s i)"

text \<open>\<^verbatim>\<open>^(w1|w2|...)\s+\<close>\<close>

definition wordThenSpace :: "string list \<Rightarrow> string \<Rightarrow> bool" where
  "wordThenSpace ws s =
     list_ex (\<lambda>w. startsWith s w \<and> length w < length s \<and> isWhitespace (s ! length w)) ws"

text \<open>\<^verbatim>\<open>^(w1|w2|...)\b\<close>\<close>

definition wordThenBoundary :: "string list \<Rightarrow> string \<Rightarrow> bool" where
  "wordThenBoundary ws s = list_ex (\<lambda>w. startsWith s w \<and> wordBoundary s (length w)) ws"

section \<open>Prompt patterns shared by the heuristic and the line cleaner\<close>

text \<open>
  Each function returns the length of the match of an anchored pattern, or \<open>None\<close>.
  The quantifiers are greedy; in every pattern the class under a quantifier is disjoint
  from what must follow it, so the greedy match is the only one except for
  \<^verbatim>\<open>.*>\<close>, which backtracks to the last \<^verbatim>\<open>>\<close> before a line terminator.
\<close>

text \<open>\<^verbatim>\<open>/^\$\s+/\<close>\<close>

definition matchDollarPrompt :: "string \<Rightarrow> nat option" where
  "matchDollarPrompt s =
     (case s of
        c # r \<Rightarrow>
          (if c = CHR ''$'' \<and> r \<noteq> [] \<and> isWhitespace (hd r)
           then Some (1 + length (takeWhile isWhitespace r)) else None)
      | [] \<Rightarrow> None)"

text \<open>\<^verbatim>\<open>/^PS\s*>\s*/\<close>\<close>

definition matchPSPrompt :: "string \<Rightarrow> nat option" where
  "matchPSPrompt s =
     (if startsWith s ''PS'' then
        (let r = drop 2 s; n = length (takeWhile isWhitespace r)
         in (case drop n r of
               c # r' \<Rightarrow>
                 (if c = CHR ''>'' then Some (2 + n + 1 + length (takeWhile isWhitespace r'))
                  else None)
             | [] \<Rightarrow> None))
      else None)"

text \<open>Index of the last \<^verbatim>\<open>>\<close> of a string, if any.\<close>

fun lastGt :: "string \<Rightarrow> nat option" where
  "lastGt [] = None"
| "lastGt (c # cs) =
     (case lastGt cs of
        Some i \<Rightarrow> Some (Suc i)
      | None \<Rightarrow> (if c = CHR ''>'' then Some 0 else None))"

text \<open>\<^verbatim>\<open>/^C:\\.*>\s*/\<close>\<close>

definition matchCmdPrompt :: "string \<Rightarrow> nat option" where
  "matchCmdPrompt s =
     (if startsWith s [CHR ''C'', CHR '':'', CHR 0x5C] then
        (let r = drop 3 s; dot = takeWhile (\<lambda>c. \<not> isLineTerminator c) r
         in (case lastGt dot of
               Some i \<Rightarrow> Some (3 + i + 1 + length (takeWhile isWhitespace (drop (i + 1) r)))
             | None \<Rightarrow> None))
      else None)"

text \<open>\<^verbatim>\<open>/^>\s+/\<close>\<close>

definition matchGenericPrompt :: "string \<Rightarrow> nat option" where
  "matchGenericPrompt s =
     (case s of
        c # r \<Rightarrow>
          (if c = CHR ''>'' \<and> r \<noteq> [] \<and> isWhitespace (hd r)
           then Some (1 + length (takeWhile isWhitespace r)) else None)
      | [] \<Rightarrow> None)"

text \<open>\<^verbatim>\<open>line.replace(re, '')\<close> for an anchored pattern without the global flag.\<close>

definition replacePrefix :: "(string \<Rightarrow> nat option) \<Rightarrow> string \<Rightarrow> string" where
  "replacePrefix re s = (case re s of Some n \<Rightarrow> drop n s | None \<Rightarrow> s)"

section \<open>The shell-shaped-content heuristic\<close>

text \<open>\<^verbatim>\<open>/^[a-zA-Z][a-zA-Z0-9_-]*\s+/\<close>\<close>

definition genericCommand :: "string \<Rightarrow> bool" where
  "genericCommand s =
     (case s of
        c # r \<Rightarrow>
          isLetter c \<and>
          (case dropWhile isCommandChar r of d # _ \<Rightarrow> isWhitespace d | [] \<Rightarrow> False)
      | [] \<Rightarrow> False)"

text \<open>The eight entries of \<^verbatim>\<open>shellPatterns\<close>, in the order of the source.\<close>

definition shellPatterns :: "(string \<Rightarrow> bool) list" where
  "shellPatterns =
     [wordThenSpace [''npm'', ''yarn'', ''pnpm'', ''bun''],
      wordThenSpace [''git'', ''docker'', ''kubectl''],
      wordThenBoundary [''ls'', ''cd'', ''mkdir'', ''rm'', ''cp'', ''mv'', ''cat'', ''grep'',
                        ''find'', ''curl'', ''wget''],
      wordThenBoundary [''dir'', ''copy'', ''move'', ''del'', ''type''],
      genericCommand,
      (\<lambda>s. matchDollarPrompt s \<noteq> None),
      (\<lambda>s. matchPSPrompt s \<noteq> None),
      (\<lambda>s. matchCmdPrompt s \<noteq> None)]"

text \<open>\<^verbatim>\<open>shellPatterns.some(pattern => pattern.test(line))\<close>\<close>

definition commandLike :: "string \<Rightarrow> bool" where
  "commandLike line = list_ex (\<lambda>pattern. pattern line) shellPatterns"

text \<open>\<^verbatim>\<open>content.split('\n').map(line => line.trim()).filter(line => line)\<close>\<close>

definition nonEmptyLines :: "string \<Rightarrow> string list" where
  "nonEmptyLines content = filter (\<lambda>line. line \<noteq> []) (map trim (splitLines content))"

text \<open>
  The source divides two array lengths and compares the quotient with 0.5. Both
  lengths are far below \<open>2^53\<close>, where the floating-point quotient of two integers lies on
  the same side of 0.5 as the exact one, so the division is taken over the reals.
\<close>

definition looksLikeShellCommands :: "string \<Rightarrow> bool" where
  "looksLikeShellCommands content =
     (let lines = nonEmptyLines content
      in if length lines = 0 then False
         else (let commandLikeLines = filter commandLike lines
               in real (length commandLikeLines) / real (length lines) > 0.5))"

section \<open>Cleaning the lines of one block\<close>

text \<open>\<^verbatim>\<open>/^(\s*\||\s*\+|\s*-|\s*\*|\s*>|\s*<)/\<close>\<close>

definition outputLike :: "string \<Rightarrow> bool" where
  "outputLike s =
     (case dropWhile isWhitespace s of
        c # _ \<Rightarrow> c \<in> set ''|+-*><''
      | [] \<Rightarrow> False)"

text \<open>The body of the loop of \<^verbatim>\<open>parseCommandsFromBlock\<close>: the command a line yields, if any.\<close>

definition parseLine :: "string \<Rightarrow> string option" where
  "parseLine line0 =
     (let line = trim line0
      in if line = [] \<or> startsWith line ''#'' \<or> startsWith line ''//'' then None
         else (let line = replacePrefix matchDollarPrompt line;
                   line = replacePrefix matchPSPrompt line;
                   line = replacePrefix matchCmdPrompt line;
                   line = replacePrefix matchGenericPrompt line
               in if line = [] then None
                  else if outputLike line then None
                  else Some line))"

definition parseCommandsFromBlock :: "string \<Rightarrow> string list" where
  "parseCommandsFromBlock content = List.map_filter parseLine (splitLines content)"

section \<open>Inferring the shell dialect\<close>

text \<open>A pattern without anchor matches if it matches at some position of the string.\<close>

definition anywhere :: "string \<Rightarrow> (nat \<Rightarrow> string \<Rightarrow> bool) \<Rightarrow> bool" where
  "anywhere s P = list_ex (\<lambda>i. P i (drop i s)) [0..<Suc (length s)]"

text \<open>\<^verbatim>\<open>/\b(w1|w2|...)/\<close>\<close>

definition boundaryThenWord :: "string list \<Rightarrow> string \<Rightarrow> bool" where
  "boundaryThenWord ws s = anywhere s (\<lambda>i r. wordBoundary s i \<and> list_ex (startsWith r) ws)"

text \<open>\<^verbatim>\<open>/\$\w+\s*=/\<close>\<close>

definition variableAssignment :: "string \<Rightarrow> bool" where
  "variableAssignment s =
     anywhere s (\<lambda>i r.
       (case r of
          c # r1 \<Rightarrow>
            c = CHR ''$'' \<and> takeWhile isWordChar r1 \<noteq> [] \<and>
            (case dropWhile isWhitespace (dropWhile isWordChar r1) of
               d # _ \<Rightarrow> d = CHR ''=''
             | [] \<Rightarrow> False)
        | [] \<Rightarrow> False))"

text \<open>\<^verbatim>\<open>/\[.*\]/\<close>\<close>

definition bracketed :: "string \<Rightarrow> bool" where
  "bracketed s =
     anywhere s (\<lambda>i r.
       (case r of
          c # r1 \<Rightarrow> c = CHR ''['' \<and> CHR '']'' \<in> set (takeWhile (\<lambda>c. \<not> isLineTerminator c) r1)
        | [] \<Rightarrow> False))"

text \<open>\<^verbatim>\<open>echo\s+off\<close> at the start of \<open>r\<close>\<close>

definition echoOff :: "string \<Rightarrow> bool" where
  "echoOff r =
     (startsWith r ''echo'' \<and>
      (let r1 = drop 4 r
       in r1 \<noteq> [] \<and> isWhitespace (hd r1) \<and> startsWith (dropWhile isWhitespace r1) ''off''))"

text \<open>\<^verbatim>\<open>set\s+\w+=\<close> at the start of \<open>r\<close>\<close>

definition setVariable :: "string \<Rightarrow> bool" where
  "setVariable r =
     (startsWith r ''set'' \<and>
      (let r1 = drop 3 r; r2 = dropWhile isWhitespace r1
       in r1 \<noteq> [] \<and> isWhitespace (hd r1) \<and> takeWhile isWordChar r2 \<noteq> [] \<and>
          startsWith (dropWhile isWordChar r2) ''=''))"

text \<open>\<^verbatim>\<open>/\b(dir|copy|move|del|type|echo\s+off|set\s+\w+=)/\<close>\<close>

definition cmdIndicator :: "string \<Rightarrow> bool" where
  "cmdIndicator s =
     anywhere s (\<lambda>i r.
       wordBoundary s i \<and>
       (list_ex (startsWith r) [''dir'', ''copy'', ''move'', ''del'', ''type''] \<or>
        echoOff r \<or> setVariable r))"

type_synonym ShellLanguage = string

definition shellLanguages :: "ShellLanguage list" where
  "shellLanguages = [''bash'', ''sh'', ''zsh'', ''powershell'', ''pwsh'', ''cmd'']"

definition inferShellLanguage :: "string list \<Rightarrow> ShellLanguage option" where
  "inferShellLanguage cmds =
     (let allCommands = toLowerCase (joinSpace cmds)
      in if boundaryThenWord [''get-'', ''set-'', ''new-'', ''remove-'', ''invoke-'', ''test-'',
                               ''start-'', ''stop-''] allCommands
            \<or> variableAssignment allCommands \<or> bracketed allCommands
         then Some ''powershell''
         else if cmdIndicator allCommands then Some ''cmd''
         else if boundaryThenWord [''ls'', ''cd'', ''mkdir'', ''rm'', ''cp'', ''mv'', ''cat'',
                                    ''grep'', ''find'', ''chmod'', ''chown''] allCommands
         then Some ''bash''
         else Some ''bash'')"

section \<open>Scanning for fenced blocks\<close>

record block =
  language :: string
  content :: string
  startIndex :: nat
  endIndex :: nat

definition fence :: string where
  "fence = [CHR 0x60, CHR 0x60, CHR 0x60]"

text \<open>Index of the first fence in a string: where the lazy \<^verbatim>\<open>[\s\S]*?\<close> stops.\<close>

fun findFence :: "string \<Rightarrow> nat option" where
  "findFence [] = None"
| "findFence (c # cs) =
     (if startsWith (c # cs) fence then Some 0 else map_option Suc (findFence cs))"

text \<open>
  The match of the fence pattern (three backticks, \<^verbatim>\<open>([a-zA-Z]*)?\<close>, a line feed,
  \<^verbatim>\<open>([\s\S]*?)\<close>, three backticks) at the start of \<open>s\<close>: the two groups and the length
  of the whole match. The letters are taken greedily; a shorter run cannot be followed by
  a line feed.
\<close>

definition matchFencedBlock :: "string \<Rightarrow> (string \<times> string \<times> nat) option" where
  "matchFencedBlock s =
     (if startsWith s fence then
        (let r = drop 3 s; lang = takeWhile isLetter r
         in (case dropWhile isLetter r of
               c # body \<Rightarrow>
                 (if c = CHR 0x0A then
                    (case findFence body of
                       Some n \<Rightarrow> Some (lang, take n body, 3 + length lang + 1 + n + 3)
                     | None \<Rightarrow> None)
                  else None)
             | [] \<Rightarrow> None))
      else None)"

text \<open>
  The \<^verbatim>\<open>exec\<close> loop: \<open>s\<close> is the text from index \<open>i\<close> on. A match is searched at \<open>i\<close>, then
  at \<open>i + 1\<close>, and so on; after a match the search resumes at its end. A block whose
  trimmed content is empty is not recorded.
\<close>

function scanBlocks :: "nat \<Rightarrow> string \<Rightarrow> block list" where
  "scanBlocks i s =
     (if s = [] then []
      else (case matchFencedBlock s of
              None \<Rightarrow> scanBlocks (i + 1) (tl s)
            | Some (lang, body, n) \<Rightarrow>
                (if trim body \<noteq> []
                 then [\<lparr>language = toLowerCase lang, content = trim body,
                        startIndex = i, endIndex = i + n\<rparr>]
                 else []) @ scanBlocks (i + n) (drop n s)))"
  by pat_completeness auto
termination
  by (relation "measure (\<lambda>(i, s). length s)")
     (auto simp: matchFencedBlock_def Let_def split: if_splits list.splits option.splits)

declare scanBlocks.simps [simp del]

definition fencedBlocks :: "string \<Rightarrow> block list" where
  "fencedBlocks text = scanBlocks 0 text"

section \<open>Candidate selection and extraction\<close>

text \<open>
  \<^verbatim>\<open>/\b(run|execute|command|terminal|shell|type|enter)\b/i\<close>. The keywords are ASCII, and
  under the flag \<^verbatim>\<open>i\<close> only an ASCII letter is equal to an ASCII letter up to case.
\<close>

definition foldCase :: "char \<Rightarrow> char" where
  "foldCase c = (if isUpper c then char_of (code c + 32) else c)"

definition executionKeywords :: "string \<Rightarrow> bool" where
  "executionKeywords s =
     anywhere s (\<lambda>i r.
       wordBoundary s i \<and>
       list_ex (\<lambda>k. map foldCase (take (length k) r) = k \<and> wordBoundary s (i + length k))
         [''run'', ''execute'', ''command'', ''terminal'', ''shell'', ''type'', ''enter''])"

text \<open>\<^verbatim>\<open>text.substring(a, b)\<close> for \<open>a \<le> b\<close>\<close>

definition substring :: "string \<Rightarrow> nat \<Rightarrow> nat \<Rightarrow> string" where
  "substring text a b = take (b - a) (drop a text)"

text \<open>Stage A: the blocks tagged with a shell dialect.\<close>

definition shellBlocks :: "block list \<Rightarrow> block list" where
  "shellBlocks blocks = filter (\<lambda>b. language b \<in> set shellLanguages) blocks"

text \<open>Stage B: the blocks without tag or with a generic tag whose content looks like shell.\<close>

definition genericBlocks :: "block list \<Rightarrow> block list" where
  "genericBlocks blocks =
     filter (\<lambda>b. looksLikeShellCommands (content b))
       (filter (\<lambda>b. language b = [] \<or>
                     language b \<in> set [''text'', ''plain'', ''terminal'', ''console'', ''shell''])
          blocks)"

text \<open>
  Stage C: the blocks preceded by an execution keyword whose content looks like shell.
  The subtraction on natural numbers stops at 0, as \<^verbatim>\<open>Math.max(0, block.startIndex - 200)\<close>
  does.
\<close>

definition keywordBlocks :: "string \<Rightarrow> block list \<Rightarrow> block list" where
  "keywordBlocks text blocks =
     filter (\<lambda>b. (let beforeBlock = substring text (startIndex b - 200) (startIndex b)
                  in executionKeywords beforeBlock \<and> looksLikeShellCommands (content b)))
       blocks"

definition candidateBlocks :: "string \<Rightarrow> block list" where
  "candidateBlocks text =
     (let blocks = fencedBlocks text;
          candidates = shellBlocks blocks;
          candidates = (if length candidates = 0 then genericBlocks blocks else candidates);
          candidates = (if length candidates = 0 then keywordBlocks text blocks else candidates)
      in candidates)"

record ExtractedCommands =
  commands :: "string list"
  languageHint :: "ShellLanguage option"
  rawBlocks :: "block list"

text \<open>One round of the loop over the target blocks.\<close>

definition addBlock :: "ExtractedCommands \<Rightarrow> block \<Rightarrow> ExtractedCommands" where
  "addBlock result b =
     (let result = result\<lparr>commands := commands result @ parseCommandsFromBlock (content b)\<rparr>
      in if languageHint result = None \<and> language b \<in> set shellLanguages
         then result\<lparr>languageHint := Some (language b)\<rparr>
         else result)"

definition extractCommands :: "string \<Rightarrow> bool \<Rightarrow> ExtractedCommands" where
  "extractCommands text recentTextOnly =
     (let result = \<lparr>commands = [], languageHint = None, rawBlocks = candidateBlocks text\<rparr>
      in if length (rawBlocks result) = 0 then result
         else (let targetBlocks = (if recentTextOnly then [last (rawBlocks result)]
                                   else rawBlocks result);
                   result = foldl addBlock result targetBlocks
               in if languageHint result = None \<and> length (commands result) > 0
                  then result\<lparr>languageHint := inferShellLanguage (commands result)\<rparr>
                  else result))"

text \<open>
  \<^verbatim>\<open>extractCommandsFromDiff\<close>: only the text added beyond the old length when the new text
  is longer, the whole new text otherwise.
\<close>

definition extractCommandsFromDiff :: "string \<Rightarrow> string \<Rightarrow> ExtractedCommands" where
  "extractCommandsFromDiff oldText newText =
     (if length newText > length oldText
      then extractCommands (drop (length oldText) newText) True
      else extractCommands newText True)"

section \<open>The matcher predicate\<close>

record ChatMatcher =
  languageIdRegex :: string
  schemeRegex :: string
  titleRegex :: string

record Config =
  enabled :: bool
  silenceMs :: nat
  chatMatchers :: "ChatMatcher list"

text \<open>
  What the handlers read of a document: \<open>uri\<close> stands for \<^verbatim>\<open>document.uri.toString()\<close>,
  \<open>scheme\<close> for \<^verbatim>\<open>document.uri.scheme\<close>, \<open>getText\<close> for the result of
  \<^verbatim>\<open>document.getText()\<close> at the time of the call.
\<close>

record TextDocument =
  uri :: string
  scheme :: string
  languageId :: string
  fileName :: string
  version :: int
  getText :: string

text \<open>
  The regular expressions of a matcher come from the settings and are compiled by the
  host. The engine is a parameter: for a pattern it gives the test the compiled
  expression performs, or \<open>None\<close> where \<^verbatim>\<open>new RegExp(pattern)\<close> throws.
\<close>

type_synonym regexEngine = "string \<Rightarrow> (string \<Rightarrow> bool) option"

datatype error = SyntaxError

definition newRegExp :: "regexEngine \<Rightarrow> string \<Rightarrow> error + (string \<Rightarrow> bool)" where
  "newRegExp re pattern = (case re pattern of None \<Rightarrow> Inl SyntaxError | Some test \<Rightarrow> Inr test)"

text \<open>
  The body of the \<^verbatim>\<open>try\<close> block for one matcher: the three tests in the order of the
  source, stopping at the first constructor that throws. The title is tested against
  \<^verbatim>\<open>document.fileName || ''\<close>, which for a string is \<open>fileName\<close> itself.
\<close>

definition testMatcher :: "regexEngine \<Rightarrow> ChatMatcher \<Rightarrow> TextDocument \<Rightarrow> error + bool" where
  "testMatcher re matcher doc =
     (case newRegExp re (languageIdRegex matcher) of
        Inl e \<Rightarrow> Inl e
      | Inr r1 \<Rightarrow>
          (let languageMatch = r1 (languageId doc)
           in (case newRegExp re (schemeRegex matcher) of
                 Inl e \<Rightarrow> Inl e
               | Inr r2 \<Rightarrow>
                   (let schemeMatch = r2 (scheme doc)
                    in (case newRegExp re (titleRegex matcher) of
                          Inl e \<Rightarrow> Inl e
                        | Inr r3 \<Rightarrow>
                            (let titleMatch = r3 (fileName doc)
                             in Inr (languageMatch \<and> schemeMatch \<and> titleMatch)))))))"

text \<open>
  The loop over the matchers. The \<^verbatim>\<open>catch\<close> clause only writes a warning to the console
  and lets the loop go on to the next matcher.
\<close>

fun matchesAny :: "regexEngine \<Rightarrow> ChatMatcher list \<Rightarrow> TextDocument \<Rightarrow> error + bool" where
  "matchesAny re [] doc = Inr False"
| "matchesAny re (matcher # matchers) doc =
     (case testMatcher re matcher doc of
        Inr matched \<Rightarrow> (if matched then Inr True else matchesAny re matchers doc)
      | Inl e \<Rightarrow> matchesAny re matchers doc)"

definition matchesChat :: "regexEngine \<Rightarrow> Config \<Rightarrow> TextDocument \<Rightarrow> error + bool" where
  "matchesChat re cfg doc = matchesAny re (chatMatchers cfg) doc"

section \<open>The idle detector\<close>

record DocumentState =
  timeout :: "nat option"
  lastLength :: nat
  lastVersion :: int
  lastContent :: string
  changeCount :: nat
  source :: TextDocument

text \<open>The field \<^verbatim>\<open>reason\<close> of an idle event is the constant \<^verbatim>\<open>'idle'\<close> and is left out.\<close>

record IdleEvent =
  document :: TextDocument
  previousContent :: string
  currentContent :: string
  changesSinceLastIdle :: nat

record TextDocumentChangeEvent =
  eventDocument :: TextDocument
  contentChanges :: "string list"

text \<open>
  A callback scheduled with \<^verbatim>\<open>setTimeout\<close>: its handle, the time at which it becomes due,
  and the two variables its closure captured.
\<close>

record Timer =
  handle :: nat
  deadline :: nat
  timerKey :: string
  timerContent :: string

text \<open>
  The detector together with the part of the host it acts on. \<open>documentStates\<close> is the
  \<^verbatim>\<open>Map\<close> of the class, in insertion order; \<open>emitted\<close> collects the events fired through
  \<^verbatim>\<open>onIdleEmitter\<close>, oldest first; \<open>config\<close> is the current content of the settings;
  \<open>timers\<close>, \<open>nextHandle\<close> and \<open>now\<close> are the host's pending timers, its supply of
  handles and its clock in milliseconds; \<open>disposed\<close> holds once \<^verbatim>\<open>dispose\<close> has removed the
  listeners and disposed the emitter.
\<close>

record Detector =
  documentStates :: "(string \<times> DocumentState) list"
  isEnabled :: bool
  emitted :: "IdleEvent list"
  config :: Config
  timers :: "Timer list"
  nextHandle :: nat
  now :: nat
  disposed :: bool

text \<open>
  The constructor: no state, and \<open>isEnabled\<close> read from the settings. Handles start at 1,
  so that \<^verbatim>\<open>if (state.timeout)\<close> holds for every handle.
\<close>

definition newDetector :: "Config \<Rightarrow> Detector" where
  "newDetector cfg =
     \<lparr>documentStates = [], isEnabled = enabled cfg, emitted = [], config = cfg,
      timers = [], nextHandle = 1, now = 0, disposed = False\<rparr>"

text \<open>
  The delay the host's \<^verbatim>\<open>setTimeout\<close> waits for: a delay below 1 or above \<open>2^31 - 1\<close>
  milliseconds is replaced by 1.
\<close>

definition timerDelay :: "nat \<Rightarrow> nat" where
  "timerDelay ms = (if ms < 1 \<or> 2147483647 < ms then 1 else ms)"

definition setTimeout :: "nat \<Rightarrow> string \<Rightarrow> string \<Rightarrow> Detector \<Rightarrow> nat \<times> Detector" where
  "setTimeout ms key captured w =
     (nextHandle w,
      w\<lparr>timers := timers w @ [\<lparr>handle = nextHandle w, deadline = now w + timerDelay ms,
                                timerKey = key, timerContent = captured\<rparr>],
        nextHandle := Suc (nextHandle w)\<rparr>)"

definition clearTimeout :: "nat \<Rightarrow> Detector \<Rightarrow> Detector" where
  "clearTimeout h w = w\<lparr>timers := filter (\<lambda>t. handle t \<noteq> h) (timers w)\<rparr>"

text \<open>\<^verbatim>\<open>if (state.timeout) { clearTimeout(state.timeout); }\<close>\<close>

definition clearStateTimeout :: "DocumentState \<Rightarrow> Detector \<Rightarrow> Detector" where
  "clearStateTimeout state w = (case timeout state of Some h \<Rightarrow> clearTimeout h w | None \<Rightarrow> w)"

definition getDocumentKey :: "TextDocument \<Rightarrow> string" where
  "getDocumentKey doc = uri doc"

definition getState :: "Detector \<Rightarrow> string \<Rightarrow> DocumentState option" where
  "getState w key = map_of (documentStates w) key"

definition setState :: "string \<Rightarrow> DocumentState \<Rightarrow> Detector \<Rightarrow> Detector" where
  "setState key state w = w\<lparr>documentStates := AList.update key state (documentStates w)\<rparr>"

text \<open>
  The handler of change notifications. If \<^verbatim>\<open>matchesChat\<close> were to throw, the handler would
  be left before it has changed anything.
\<close>

definition onTextDocumentChange :: "regexEngine \<Rightarrow> TextDocumentChangeEvent \<Rightarrow> Detector \<Rightarrow> Detector" where
  "onTextDocumentChange re event w =
     (if \<not> isEnabled w then w
      else (let doc = eventDocument event
            in if matchesChat re (config w) doc \<noteq> Inr True then w
               else if length (contentChanges event) = 0 then w
               else (let documentKey = getDocumentKey doc;
                         currentContent = getText doc;
                         currentLength = length currentContent;
                         currentVersion = version doc;
                         (state, w) =
                           (case getState w documentKey of
                              None \<Rightarrow>
                                (\<lparr>timeout = None, lastLength = currentLength,
                                  lastVersion = currentVersion, lastContent = currentContent,
                                  changeCount = 1, source = doc\<rparr>, w)
                            | Some currentState \<Rightarrow>
                                (currentState\<lparr>lastLength := currentLength,
                                   lastVersion := currentVersion,
                                   changeCount := changeCount currentState + 1,
                                   source := doc\<rparr>,
                                 clearStateTimeout currentState w));
                         (h, w) = setTimeout (silenceMs (config w)) documentKey currentContent w
                     in setState documentKey (state\<lparr>timeout := Some h\<rparr>) w)))"

definition onTextDocumentClose :: "TextDocument \<Rightarrow> Detector \<Rightarrow> Detector" where
  "onTextDocumentClose doc w =
     (let documentKey = getDocumentKey doc
      in (case getState w documentKey of
            Some state \<Rightarrow>
              (let w = clearStateTimeout state w
               in w\<lparr>documentStates := AList.delete documentKey (documentStates w)\<rparr>)
          | None \<Rightarrow> w))"

text \<open>\<^verbatim>\<open>this.onIdleEmitter.fire(idleEvent)\<close>: a disposed emitter delivers nothing.\<close>

definition fireEvent :: "IdleEvent \<Rightarrow> Detector \<Rightarrow> Detector" where
  "fireEvent e w = (if disposed w then w else w\<lparr>emitted := emitted w @ [e]\<rparr>)"

definition onDocumentIdle :: "string \<Rightarrow> string \<Rightarrow> Detector \<Rightarrow> Detector" where
  "onDocumentIdle documentKey current w =
     (case getState w documentKey of
        None \<Rightarrow> w
      | Some state \<Rightarrow>
          (let idleEvent = \<lparr>document = source state, previousContent = lastContent state,
                            currentContent = current,
                            changesSinceLastIdle = changeCount state\<rparr>;
               w = setState documentKey
                     (state\<lparr>timeout := None, lastContent := current, changeCount := 0\<rparr>) w
           in fireEvent idleEvent w))"

definition clearAllStates :: "Detector \<Rightarrow> Detector" where
  "clearAllStates w =
     (foldl (\<lambda>w (key, state). clearStateTimeout state w) w (documentStates w))
       \<lparr>documentStates := []\<rparr>"

text \<open>
  The settings change to \<open>cfg\<close> and the host notifies the detector.
\<close>

definition onConfigurationChange :: "Config \<Rightarrow> Detector \<Rightarrow> Detector" where
  "onConfigurationChange cfg w =
     (let w = w\<lparr>config := cfg\<rparr>;
          wasEnabled = isEnabled w;
          w = w\<lparr>isEnabled := enabled (config w)\<rparr>
      in if \<not> isEnabled w \<and> wasEnabled then clearAllStates w else w)"

definition setEnabled :: "bool \<Rightarrow> Detector \<Rightarrow> Detector" where
  "setEnabled b w =
     (if isEnabled w = b then w
      else (let w = w\<lparr>isEnabled := b\<rparr>
            in if \<not> b then clearAllStates w else w))"

definition triggerIdleForDocument :: "TextDocument \<Rightarrow> Detector \<Rightarrow> Detector" where
  "triggerIdleForDocument doc w =
     (if \<not> isEnabled w then w
      else (let documentKey = getDocumentKey doc
            in (case getState w documentKey of
                  Some state \<Rightarrow> onDocumentIdle documentKey (getText doc) (clearStateTimeout state w)
                | None \<Rightarrow> w)))"

text \<open>
  \<^verbatim>\<open>dispose\<close> clears the state, removes the three listeners and disposes the emitter.
\<close>

definition dispose :: "Detector \<Rightarrow> Detector" where
  "dispose w = (clearAllStates w)\<lparr>disposed := True\<rparr>"

subsection \<open>The host: inputs, timers, time\<close>

datatype Input =
    Change TextDocumentChangeEvent
  | Close TextDocument
  | ConfigurationChange Config
  | SetEnabled bool
  | TriggerIdle TextDocument
  | Dispose

text \<open>
  The host calls the three listeners only until they are removed; a change of the
  settings then still changes the settings. The public methods can be called at any time.
\<close>

fun handleInput :: "regexEngine \<Rightarrow> Input \<Rightarrow> Detector \<Rightarrow> Detector" where
  "handleInput re (Change event) w =
     (if disposed w then w else onTextDocumentChange re event w)"
| "handleInput re (Close doc) w = (if disposed w then w else onTextDocumentClose doc w)"
| "handleInput re (ConfigurationChange cfg) w =
     (if disposed w then w\<lparr>config := cfg\<rparr> else onConfigurationChange cfg w)"
| "handleInput re (SetEnabled b) w = setEnabled b w"
| "handleInput re (TriggerIdle doc) w = triggerIdleForDocument doc w"
| "handleInput re Dispose w = dispose w"

text \<open>A timer fires: the host forgets it and runs its callback.\<close>

definition fireTimer :: "Timer \<Rightarrow> Detector \<Rightarrow> Detector" where
  "fireTimer t w =
     onDocumentIdle (timerKey t) (timerContent t)
       (w\<lparr>timers := filter (\<lambda>x. handle x \<noteq> handle t) (timers w)\<rparr>)"

text \<open>
  Time passes until \<open>T\<close> with no input: the timers due by then fire, earliest deadline
  first, in the order of their creation where deadlines are equal.
\<close>

definition dueTimers :: "nat \<Rightarrow> Detector \<Rightarrow> Timer list" where
  "dueTimers T w = sort_key deadline (filter (\<lambda>t. deadline t \<le> T) (timers w))"

definition advance :: "nat \<Rightarrow> Detector \<Rightarrow> Detector" where
  "advance T w = foldl (\<lambda>w t. fireTimer t w) (w\<lparr>now := max (now w) T\<rparr>) (dueTimers T w)"

text \<open>A run over timed inputs: before each input the clock advances to the input's time.\<close>

fun run :: "regexEngine \<Rightarrow> (nat \<times> Input) list \<Rightarrow> Detector \<Rightarrow> Detector" where
  "run re [] w = w"
| "run re ((T, i) # rest) w = run re rest (handleInput re i (advance T w))"

text \<open>
  The states the detector can be in: any interleaving of inputs, passing time and timers
  firing once they are due.
\<close>

inductive reachable :: "regexEngine \<Rightarrow> Detector \<Rightarrow> bool" for re :: regexEngine where
  start: "reachable re (newDetector cfg)"
| input: "reachable re w \<Longrightarrow> reachable re (handleInput re i w)"
| tick: "reachable re w \<Longrightarrow> now w \<le> T \<Longrightarrow> reachable re (w\<lparr>now := T\<rparr>)"
| fire: "reachable re w \<Longrightarrow> t \<in> set (timers w) \<Longrightarrow> deadline t \<le> now w \<Longrightarrow>
         reachable re (fireTimer t w)"

text \<open>The idle events emitted so far for one document, and its live timers.\<close>

definition eventsFor :: "string \<Rightarrow> Detector \<Rightarrow> IdleEvent list" where
  "eventsFor key w = filter (\<lambda>e. getDocumentKey (document e) = key) (emitted w)"

definition timersFor :: "string \<Rightarrow> Detector \<Rightarrow> Timer list" where
  "timersFor key w = filter (\<lambda>t. timerKey t = key) (timers w)"



section \<open>Auxiliary notions for the properties\<close>

text \<open>A string without leading or trailing whitespace.\<close>

definition trimmed :: "string \<Rightarrow> bool" where
  "trimmed s = (s \<noteq> [] \<longrightarrow> \<not> isWhitespace (hd s) \<and> \<not> isWhitespace (last s))"

text \<open>The blocks the commands are taken from.\<close>

definition targetBlocks :: "string \<Rightarrow> bool \<Rightarrow> block list" where
  "targetBlocks input recentTextOnly =
     (if candidateBlocks input = [] then []
      else if recentTextOnly then [last (candidateBlocks input)] else candidateBlocks input)"

text \<open>
  Example texts: one untagged block, two shell blocks, a shell block holding only a
  comment, an untagged block holding only a prompt.
\<close>

definition untaggedExample :: string where
  "untaggedExample = fence @ [CHR 0x0A] @ ''ls -la'' @ [CHR 0x0A] @ fence"

definition twoBlocksExample :: string where
  "twoBlocksExample =
     fence @ ''bash'' @ [CHR 0x0A] @ ''npm install'' @ [CHR 0x0A] @ fence @ [CHR 0x0A] @
     fence @ ''sh'' @ [CHR 0x0A] @ ''$ ls -la'' @ [CHR 0x0A] @ ''make'' @ [CHR 0x0A] @ fence"

definition commentOnlyExample :: string where
  "commentOnlyExample = fence @ ''bash'' @ [CHR 0x0A] @ ''# only a comment'' @ [CHR 0x0A] @ fence"

definition promptOnlyExample :: string where
  "promptOnlyExample = fence @ [CHR 0x0A] @ ''PS>'' @ [CHR 0x0A] @ fence"

text \<open>
  Invariant of the detector: handles of live timers are distinct and below the next
  handle; every live timer belongs to a tracked document whose state records its handle
  and whose last tracked text it captured; a state is stored under the key of its source;
  a handle recorded in a state is that of a live timer of the same document; a disposed
  detector tracks nothing.
\<close>

definition wellFormed :: "Detector \<Rightarrow> bool" where
  "wellFormed w =
     (distinct (map handle (timers w)) \<and>
      (\<forall>t \<in> set (timers w). handle t < nextHandle w) \<and>
      (\<forall>t \<in> set (timers w). \<exists>st. getState w (timerKey t) = Some st \<and>
          timeout st = Some (handle t) \<and> timerContent t = getText (source st)) \<and>
      (\<forall>k st. getState w k = Some st \<longrightarrow> getDocumentKey (source st) = k) \<and>
      (\<forall>k st h. getState w k = Some st \<and> timeout st = Some h \<longrightarrow>
          (\<exists>t \<in> set (timers w). handle t = h \<and> timerKey t = k)) \<and>
      (disposed w \<longrightarrow> documentStates w = []))"

text \<open>The state of a document after a tracked edit, before the new timer is recorded.\<close>

definition editedState :: "TextDocument \<Rightarrow> DocumentState option \<Rightarrow> DocumentState" where
  "editedState doc cur =
     (case cur of
        None \<Rightarrow> \<lparr>timeout = None, lastLength = length (getText doc), lastVersion = version doc,
                  lastContent = getText doc, changeCount = 1, source = doc\<rparr>
      | Some cs \<Rightarrow> cs\<lparr>lastLength := length (getText doc), lastVersion := version doc,
                      changeCount := changeCount cs + 1, source := doc\<rparr>)"

text \<open>The state of a document after its idle event, and the event itself.\<close>

definition idledState :: "string \<Rightarrow> DocumentState \<Rightarrow> DocumentState" where
  "idledState c st = st\<lparr>timeout := None, lastContent := c, changeCount := 0\<rparr>"

definition idleEventOf :: "string \<Rightarrow> DocumentState \<Rightarrow> IdleEvent" where
  "idleEventOf c st =
     \<lparr>document = source st, previousContent = lastContent st, currentContent = c,
      changesSinceLastIdle = changeCount st\<rparr>"

text \<open>The timer a tracked edit of a document schedules in a given state.\<close>

definition armedTimer :: "TextDocument \<Rightarrow> Detector \<Rightarrow> Timer" where
  "armedTimer doc w =
     \<lparr>handle = nextHandle w, deadline = now w + timerDelay (silenceMs (config w)),
      timerKey = getDocumentKey doc, timerContent = getText doc\<rparr>"

text \<open>The change notifications that are delivered and that the handler acts on.\<close>

definition tracks :: "regexEngine \<Rightarrow> TextDocumentChangeEvent \<Rightarrow> Detector \<Rightarrow> bool" where
  "tracks re ev w =
     (\<not> disposed w \<and> isEnabled w \<and>
      matchesChat re (config w) (eventDocument ev) = Inr True \<and> contentChanges ev \<noteq> [])"

text \<open>
  An example: an engine that rejects one pattern, a configuration whose first matcher
  carries that pattern, a document its second matcher accepts, an edit of that document,
  the configuration with the first matcher only, and the state after one edit.
\<close>

definition exampleEngine :: regexEngine where
  "exampleEngine pattern =
     (if pattern = ''('' then None else Some (\<lambda>s. pattern = ''.*'' \<or> s = pattern))"

definition exampleConfig :: Config where
  "exampleConfig =
     \<lparr>enabled = True, silenceMs = 1500,
      chatMatchers =
        [\<lparr>languageIdRegex = ''('', schemeRegex = ''.*'', titleRegex = ''.*''\<rparr>,
         \<lparr>languageIdRegex = ''chat'', schemeRegex = ''.*'', titleRegex = ''.*''\<rparr>]\<rparr>"

definition exampleDocument :: "string \<Rightarrow> int \<Rightarrow> TextDocument" where
  "exampleDocument body v =
     \<lparr>uri = ''file:///a'', scheme = ''file'', languageId = ''chat'', fileName = ''/a'',
      version = v, getText = body\<rparr>"

definition exampleEdit :: "string \<Rightarrow> int \<Rightarrow> TextDocumentChangeEvent" where
  "exampleEdit body v = \<lparr>eventDocument = exampleDocument body v, contentChanges = [''x'']\<rparr>"

definition onlyInvalid :: Config where
  "onlyInvalid = exampleConfig\<lparr>chatMatchers := [hd (chatMatchers exampleConfig)]\<rparr>"

definition examplePending :: Detector where
  "examplePending = handleInput exampleEngine (Change (exampleEdit ''a'' 1)) (newDetector exampleConfig)"

text \<open>
  Times in chronological order, each less than \<open>gap\<close> after its predecessor, starting
  from \<open>T\<close>.
\<close>

fun spaced :: "nat \<Rightarrow> nat \<Rightarrow> nat list \<Rightarrow> bool" where
  "spaced gap T [] = True"
| "spaced gap T (T' # Ts) = (T \<le> T' \<and> T' < T + gap \<and> spaced gap T' Ts)"

text \<open>A run whose inputs are change notifications only.\<close>

definition editRun :: "regexEngine \<Rightarrow> (nat \<times> TextDocumentChangeEvent) list \<Rightarrow> Detector \<Rightarrow> Detector" where
  "editRun re edits w = run re (map (\<lambda>(T, ev). (T, Change ev)) edits) w"

text \<open>
  The document \<open>k\<close> is in a round of \<open>c\<close> edits, the last at time \<open>T\<close> with text
  \<open>body\<close>, with its single timer due one silence duration later; \<open>E\<close> are the events
  emitted for it so far.
\<close>

definition pendingAt ::
  "string \<Rightarrow> Config \<Rightarrow> IdleEvent list \<Rightarrow> nat \<Rightarrow> nat \<Rightarrow> string \<Rightarrow> Detector \<Rightarrow> bool" where
  "pendingAt k cfg E c T body w =
     (wellFormed w \<and> \<not> disposed w \<and> isEnabled w \<and> config w = cfg \<and>
      timerDelay (silenceMs cfg) = silenceMs cfg \<and> now w = T \<and> eventsFor k w = E \<and>
      (\<exists>st t. getState w k = Some st \<and> changeCount st = c \<and> timersFor k w = [t] \<and>
              deadline t = T + silenceMs cfg \<and> timerContent t = body))"

text \<open>
  Three edits 200 ms apart; the timer the first of them arms; a change of the matchers
  after which the document no longer matches.
\<close>

definition exampleEdits :: "(nat \<times> TextDocumentChangeEvent) list" where
  "exampleEdits = [(0, exampleEdit ''a'' 1), (200, exampleEdit ''ab'' 2), (400, exampleEdit ''abc'' 3)]"



text \<open>
  A configuration whose silence duration is above the largest delay the host's timer
  waits for, and two edits 50 ms apart.
\<close>

definition longConfig :: Config where
  "longConfig = exampleConfig\<lparr>silenceMs := 2147483648\<rparr>"

definition longEdits :: "(nat \<times> TextDocumentChangeEvent) list" where
  "longEdits = [(0, exampleEdit ''a'' 1), (50, exampleEdit ''ab'' 2)]"

section \<open>Properties of the command extractor\<close>

lemma last_dropWhile: "dropWhile P xs \<noteq> [] \<Longrightarrow> last (dropWhile P xs) = last xs"
  by (induction xs) (auto split: if_splits)

lemma trimmed_trim: "trimmed (trim s)"
proof -
  let ?a = "dropWhile isWhitespace s"
  let ?b = "dropWhile isWhitespace (rev ?a)"
  show ?thesis
  proof (cases "?b = []")
    case True
    then show ?thesis by (simp add: trimmed_def trim_def)
  next
    case False
    then have a: "?a \<noteq> []" by (cases "dropWhile isWhitespace s") simp_all
    have "\<not> isWhitespace (hd ?b)" using False by (rule hd_dropWhile)
    moreover have "last ?b = last (rev ?a)" using False by (rule last_dropWhile)
    moreover have "\<not> isWhitespace (hd ?a)" using a by (rule hd_dropWhile)
    ultimately show ?thesis using False a
      by (simp add: trimmed_def trim_def hd_rev last_rev)
  qed
qed

lemma trim_trimmed: assumes "trimmed s" shows "trim s = s"
proof (cases "s = []")
  case True
  then show ?thesis by (simp add: trim_def)
next
  case False
  with assms have h: "\<not> isWhitespace (hd s)" and l: "\<not> isWhitespace (last s)"
    by (simp_all add: trimmed_def)
  from False h have 1: "dropWhile isWhitespace s = s" by (cases s) auto
  from False l have 2: "dropWhile isWhitespace (rev s) = rev s"
    by (cases "rev s") (auto simp: last_rev)
  show ?thesis by (simp add: trim_def 1 2)
qed

lemma trimmed_suffix: assumes "trimmed s" shows "trimmed (dropWhile isWhitespace (drop k s))"
proof (cases "dropWhile isWhitespace (drop k s) = []")
  case True
  then show ?thesis by (simp add: trimmed_def)
next
  case False
  then have k: "k < length s" by (cases "k < length s") auto
  then have s: "s \<noteq> []" by auto
  have "\<not> isWhitespace (hd (dropWhile isWhitespace (drop k s)))" using False by (rule hd_dropWhile)
  moreover have "last (dropWhile isWhitespace (drop k s)) = last (drop k s)"
    using False by (rule last_dropWhile)
  moreover have "last (drop k s) = last s" using k by (rule last_drop)
  ultimately show ?thesis using assms s by (simp add: trimmed_def)
qed

lemma drop_takeWhile_length: "drop (length (takeWhile P xs)) xs = dropWhile P xs"
  by (simp add: dropWhile_eq_drop)

lemma strip_dollar: "matchDollarPrompt s = Some n \<Longrightarrow> \<exists>k. drop n s = dropWhile isWhitespace (drop k s)"
  by (rule exI [of _ 1])
     (auto simp: matchDollarPrompt_def drop_takeWhile_length drop_Suc split: list.splits if_splits)

lemma strip_generic: "matchGenericPrompt s = Some n \<Longrightarrow> \<exists>k. drop n s = dropWhile isWhitespace (drop k s)"
  by (rule exI [of _ 1])
     (auto simp: matchGenericPrompt_def drop_takeWhile_length drop_Suc split: list.splits if_splits)

lemma drop_add_takeWhile:
  "drop (k + length (takeWhile P (drop k s))) s = dropWhile P (drop k s)"
  by (metis add.commute drop_drop drop_takeWhile_length)

lemma strip_ps: assumes "matchPSPrompt s = Some n"
  shows "\<exists>k. drop n s = dropWhile isWhitespace (drop k s)"
proof -
  let ?m = "length (takeWhile isWhitespace (drop 2 s))"
  from assms obtain c r' where d: "drop ?m (drop 2 s) = c # r'"
    and n: "n = 2 + ?m + 1 + length (takeWhile isWhitespace r')"
    by (auto simp: matchPSPrompt_def Let_def split: if_splits list.splits)
  from d have "drop (2 + ?m + 1) s = r'"
    by (metis Cons_nth_drop_Suc add.commute drop_Suc drop_drop list.sel(3) plus_1_eq_Suc tl_drop)
  then have "drop n s = dropWhile isWhitespace (drop (2 + ?m + 1) s)"
    using drop_add_takeWhile [of "2 + ?m + 1" isWhitespace s] n by simp
  then show ?thesis ..
qed

lemma strip_cmd: assumes "matchCmdPrompt s = Some n"
  shows "\<exists>k. drop n s = dropWhile isWhitespace (drop k s)"
proof -
  from assms obtain i where
    n: "n = 3 + i + 1 + length (takeWhile isWhitespace (drop (i + 1) (drop 3 s)))"
    by (auto simp: matchCmdPrompt_def Let_def split: if_splits option.splits)
  have "drop n s = dropWhile isWhitespace (drop (3 + i + 1) s)"
    using drop_add_takeWhile [of "3 + i + 1" isWhitespace s] n by (simp add: add.commute)
  then show ?thesis ..
qed

lemma trimmed_replacePrefix:
  assumes "trimmed s" and "\<And>n. re s = Some n \<Longrightarrow> \<exists>k. drop n s = dropWhile isWhitespace (drop k s)"
  shows "trimmed (replacePrefix re s)"
proof (cases "re s")
  case None
  with assms(1) show ?thesis by (simp add: replacePrefix_def)
next
  case (Some n)
  with assms(2) obtain k where "drop n s = dropWhile isWhitespace (drop k s)" by blast
  with Some trimmed_suffix [OF assms(1), of k] show ?thesis by (simp add: replacePrefix_def)
qed

lemma parseLine_trimmed: assumes "parseLine l = Some c" shows "c \<noteq> [] \<and> trim c = c"
proof -
  let ?l1 = "replacePrefix matchDollarPrompt (trim l)"
  let ?l2 = "replacePrefix matchPSPrompt ?l1"
  let ?l3 = "replacePrefix matchCmdPrompt ?l2"
  let ?l4 = "replacePrefix matchGenericPrompt ?l3"
  from assms have c: "c = ?l4" and ne: "c \<noteq> []"
    by (auto simp: parseLine_def Let_def split: if_splits)
  have "trimmed ?l1" by (rule trimmed_replacePrefix [OF trimmed_trim strip_dollar])
  then have "trimmed ?l2" by (rule trimmed_replacePrefix [OF _ strip_ps])
  then have "trimmed ?l3" by (rule trimmed_replacePrefix [OF _ strip_cmd])
  then have "trimmed ?l4" by (rule trimmed_replacePrefix [OF _ strip_generic])
  with c ne show ?thesis by (simp add: trim_trimmed)
qed

lemma in_map_filter: "c \<in> set (List.map_filter f xs) \<Longrightarrow> \<exists>x \<in> set xs. f x = Some c"
  by (induction xs) (auto split: option.splits)

lemma parseCommandsFromBlock_trimmed:
  "c \<in> set (parseCommandsFromBlock b) \<Longrightarrow> c \<noteq> [] \<and> trim c = c"
  by (auto simp: parseCommandsFromBlock_def dest!: in_map_filter dest: parseLine_trimmed)

lemma commands_addBlock:
  "commands (addBlock r b) = commands r @ parseCommandsFromBlock (content b)"
  by (simp add: addBlock_def Let_def)

lemma commands_foldl_addBlock:
  "commands (foldl addBlock r bs) = commands r @ concat (map (\<lambda>b. parseCommandsFromBlock (content b)) bs)"
  by (induction bs arbitrary: r) (simp_all add: commands_addBlock)

lemma rawBlocks_addBlock: "rawBlocks (addBlock r b) = rawBlocks r"
  by (simp add: addBlock_def Let_def)

lemma rawBlocks_foldl_addBlock: "rawBlocks (foldl addBlock r bs) = rawBlocks r"
  by (induction bs arbitrary: r) (simp_all add: rawBlocks_addBlock)

lemma commands_extractCommands:
  "commands (extractCommands input r) =
     concat (map (\<lambda>b. parseCommandsFromBlock (content b)) (targetBlocks input r))"
  by (simp add: extractCommands_def targetBlocks_def Let_def commands_foldl_addBlock commands_addBlock)

lemma rawBlocks_extractCommands: "rawBlocks (extractCommands input r) = candidateBlocks input"
  by (simp add: extractCommands_def Let_def rawBlocks_foldl_addBlock rawBlocks_addBlock)

text \<open>
  Claim C10. Every string in the commands list returned by extraction is non-empty and
  equals its own trim: the list never holds a blank entry or an entry with leading or
  trailing whitespace. This holds for both values of \<open>recentTextOnly\<close>.
\<close>

theorem extractCommands_commands_trimmed:
  "\<forall>c \<in> set (commands (extractCommands input recentTextOnly)). c \<noteq> [] \<and> trim c = c"
  by (auto simp: commands_extractCommands dest: parseCommandsFromBlock_trimmed)

theorem extractCommands_commands_trimmed_witness:
  "commands (extractCommands twoBlocksExample True) = [''ls -la'', ''make''] \<and>
   ''ls -la'' \<noteq> [] \<and> trim ''ls -la'' = ''ls -la''"
proof -
  have c: "commands (extractCommands twoBlocksExample True) = [''ls -la'', ''make'']" by code_simp
  with extractCommands_commands_trimmed [of twoBlocksExample True] show ?thesis by simp
qed

lemma candidateBlocks_stages:
  "candidateBlocks input =
     (if shellBlocks (fencedBlocks input) \<noteq> [] then shellBlocks (fencedBlocks input)
      else if genericBlocks (fencedBlocks input) \<noteq> [] then genericBlocks (fencedBlocks input)
      else keywordBlocks input (fencedBlocks input))"
  by (simp add: candidateBlocks_def Let_def)

text \<open>
  Claim C2. The candidate set reported by extraction comes from exactly one stage: the
  shell-tagged blocks if there are any; otherwise the untagged or generically tagged
  shell-shaped blocks if there are any; otherwise the keyword-preceded shell-shaped
  blocks. The result is always exactly one of the three lists, never a mixture.
\<close>

theorem candidates_from_one_stage:
  "rawBlocks (extractCommands input recentTextOnly) =
     (if shellBlocks (fencedBlocks input) \<noteq> [] then shellBlocks (fencedBlocks input)
      else if genericBlocks (fencedBlocks input) \<noteq> [] then genericBlocks (fencedBlocks input)
      else keywordBlocks input (fencedBlocks input))"
  by (simp only: rawBlocks_extractCommands candidateBlocks_stages)

theorem candidates_from_one_stage_witness:
  "shellBlocks (fencedBlocks untaggedExample) = [] \<and>
   genericBlocks (fencedBlocks untaggedExample) =
     [\<lparr>language = [], content = ''ls -la'', startIndex = 0, endIndex = 14\<rparr>] \<and>
   keywordBlocks untaggedExample (fencedBlocks untaggedExample) = [] \<and>
   rawBlocks (extractCommands untaggedExample True) = genericBlocks (fencedBlocks untaggedExample)"
proof -
  have a: "shellBlocks (fencedBlocks untaggedExample) = []" by code_simp
  have b: "genericBlocks (fencedBlocks untaggedExample) =
     [\<lparr>language = [], content = ''ls -la'', startIndex = 0, endIndex = 14\<rparr>]" by code_simp
  have c: "keywordBlocks untaggedExample (fencedBlocks untaggedExample) = []" by code_simp
  show ?thesis using candidates_from_one_stage [of untaggedExample True] a b c by simp
qed

lemma matchFencedBlock_pos: "matchFencedBlock s = Some (l, b, n) \<Longrightarrow> 0 < n"
  by (auto simp: matchFencedBlock_def Let_def split: if_splits list.splits option.splits)

lemma scanBlocks_startIndex: "b \<in> set (scanBlocks i s) \<Longrightarrow> i \<le> startIndex b"
proof (induction i s rule: scanBlocks.induct)
  case (1 i s)
  show ?case
  proof (cases "s = []")
    case True
    with "1.prems" show ?thesis by (simp add: scanBlocks.simps)
  next
    case False
    show ?thesis
    proof (cases "matchFencedBlock s")
      case None
      with False "1.prems" have "b \<in> set (scanBlocks (i + 1) (tl s))"
        by (simp add: scanBlocks.simps [of i s])
      with "1.IH"(1) [OF False None] show ?thesis by simp
    next
      case (Some m)
      obtain lang body n where m: "m = (lang, body, n)" by (cases m) auto
      from False Some m "1.prems" have
        "startIndex b = i \<or> b \<in> set (scanBlocks (i + n) (drop n s))"
        by (auto simp: scanBlocks.simps [of i s] split: if_splits)
      with "1.IH"(2) [OF False Some m [symmetric] refl] show ?thesis by auto
    qed
  qed
qed

lemma scanBlocks_sorted:
  "sorted_wrt (\<lambda>a b. startIndex a < startIndex b) (scanBlocks i s)"
proof (induction i s rule: scanBlocks.induct)
  case (1 i s)
  show ?case
  proof (cases "s = []")
    case True
    then show ?thesis by (simp add: scanBlocks.simps)
  next
    case False
    show ?thesis
    proof (cases "matchFencedBlock s")
      case None
      with False "1.IH"(1) show ?thesis by (simp add: scanBlocks.simps [of i s])
    next
      case (Some m)
      obtain lang body n where m: "m = (lang, body, n)" by (cases m) auto
      from Some m have n: "0 < n" by (auto dest: matchFencedBlock_pos)
      have later: "\<forall>b \<in> set (scanBlocks (i + n) (drop n s)). i < startIndex b"
        using scanBlocks_startIndex [of _ "i + n" "drop n s"] n by fastforce
      from "1.IH"(2) [OF False Some m [symmetric] refl] later False Some m
      show ?thesis by (simp add: scanBlocks.simps [of i s])
    qed
  qed
qed

lemma sorted_wrt_filter': "sorted_wrt R xs \<Longrightarrow> sorted_wrt R (filter P xs)"
  by (induction xs) auto

lemma candidateBlocks_sorted:
  "sorted_wrt (\<lambda>a b. startIndex a < startIndex b) (candidateBlocks input)"
  by (simp add: candidateBlocks_stages shellBlocks_def genericBlocks_def keywordBlocks_def
      fencedBlocks_def sorted_wrt_filter' scanBlocks_sorted)

text \<open>
  Claim C3. When more than one block qualifies as a candidate, extraction with the
  default policy returns exactly the cleaned command lines of the last candidate block,
  in the order of that block; every other candidate starts earlier in the source text
  and contributes nothing.
\<close>

theorem last_block_only:
  assumes "1 < length (candidateBlocks input)"
  shows "commands (extractCommands input True) =
           parseCommandsFromBlock (content (last (candidateBlocks input))) \<and>
         (\<forall>b \<in> set (butlast (candidateBlocks input)).
            startIndex b < startIndex (last (candidateBlocks input)))"
proof -
  from assms have ne: "candidateBlocks input \<noteq> []" by auto
  then have "commands (extractCommands input True) =
           parseCommandsFromBlock (content (last (candidateBlocks input)))"
    by (simp add: commands_extractCommands targetBlocks_def)
  moreover have "\<forall>b \<in> set (butlast (candidateBlocks input)).
            startIndex b < startIndex (last (candidateBlocks input))"
  proof -
    have "sorted_wrt (\<lambda>a b. startIndex a < startIndex b)
            (butlast (candidateBlocks input) @ [last (candidateBlocks input)])"
      using candidateBlocks_sorted [of input] append_butlast_last_id [OF ne] by simp
    then show ?thesis by (simp add: sorted_wrt_append)
  qed
  ultimately show ?thesis by simp
qed

theorem last_block_only_witness:
  "length (candidateBlocks twoBlocksExample) = 2 \<and>
   map content (candidateBlocks twoBlocksExample) = [''npm install'', ''$ ls -la'' @ [CHR 0x0A] @ ''make''] \<and>
   commands (extractCommands twoBlocksExample True) = [''ls -la'', ''make'']"
proof -
  have c: "map content (candidateBlocks twoBlocksExample) =
             [''npm install'', ''$ ls -la'' @ [CHR 0x0A] @ ''make'']" by code_simp
  then obtain x y where xy: "candidateBlocks twoBlocksExample = [x, y]"
    by (auto simp: map_eq_Cons_conv)
  then have l: "1 < length (candidateBlocks twoBlocksExample)" by simp
  have p: "parseCommandsFromBlock (''$ ls -la'' @ [CHR 0x0A] @ ''make'') = [''ls -la'', ''make'']"
    by code_simp
  from c xy have "content (last (candidateBlocks twoBlocksExample)) = ''$ ls -la'' @ [CHR 0x0A] @ ''make''"
    by simp
  with last_block_only [OF l] xy c p show ?thesis by simp
qed

lemma languageHint_foldl_addBlock:
  "languageHint (foldl addBlock r bs) =
     (case languageHint r of
        Some l \<Rightarrow> Some l
      | None \<Rightarrow> map_option language (find (\<lambda>b. language b \<in> set shellLanguages) bs))"
  by (induction bs arbitrary: r) (auto simp: addBlock_def Let_def split: option.splits)

text \<open>
  Claim C4, amended. When extraction with the default policy returns no commands, the
  language hint is the tag of the selected (last) candidate block if that tag is a
  recognized shell dialect, and none otherwise: a hint is never inferred without commands,
  but an explicit tag is reported even when its block yields no command.
\<close>

theorem hint_without_commands:
  assumes "commands (extractCommands input True) = []"
  shows "languageHint (extractCommands input True) =
           (if candidateBlocks input \<noteq> [] \<and> language (last (candidateBlocks input)) \<in> set shellLanguages
            then Some (language (last (candidateBlocks input))) else None)"
proof (cases "candidateBlocks input = []")
  case True
  then show ?thesis by (simp add: extractCommands_def)
next
  case False
  let ?r = "foldl addBlock \<lparr>commands = [], languageHint = None, rawBlocks = candidateBlocks input\<rparr>
              [last (candidateBlocks input)]"
  from assms False have c: "commands ?r = []"
    by (simp add: commands_extractCommands targetBlocks_def commands_addBlock)
  from False have "extractCommands input True =
      (if languageHint ?r = None \<and> length (commands ?r) > 0
       then ?r\<lparr>languageHint := inferShellLanguage (commands ?r)\<rparr> else ?r)"
    by (simp add: extractCommands_def Let_def)
  with c have "languageHint (extractCommands input True) = languageHint ?r" by simp
  also have "\<dots> = (if language (last (candidateBlocks input)) \<in> set shellLanguages
            then Some (language (last (candidateBlocks input))) else None)"
    by (simp add: addBlock_def Let_def)
  finally show ?thesis using False by simp
qed

theorem hint_without_commands_witness:
  "commands (extractCommands promptOnlyExample True) = [] \<and>
   map language (candidateBlocks promptOnlyExample) = [[]] \<and>
   languageHint (extractCommands promptOnlyExample True) = None"
proof -
  have c: "commands (extractCommands promptOnlyExample True) = []" by code_simp
  have l: "map language (candidateBlocks promptOnlyExample) = [[]]" by code_simp
  have "[] \<notin> set shellLanguages" by (simp add: shellLanguages_def)
  moreover from l have "language (last (candidateBlocks promptOnlyExample)) = []"
    by (cases "candidateBlocks promptOnlyExample") (auto split: if_splits)
  ultimately show ?thesis using hint_without_commands [OF c] c l by simp
qed

text \<open>
  Claim C4 as stated fails: a block tagged \<^verbatim>\<open>bash\<close> that holds only a comment yields no
  command and still the hint \<^verbatim>\<open>bash\<close>.
\<close>

theorem hint_without_commands_counterexample:
  "commands (extractCommands commentOnlyExample True) = [] \<and>
   languageHint (extractCommands commentOnlyExample True) = Some ''bash''"
  by code_simp

text \<open>
  Claim C9. The heuristic accepts a block content exactly when strictly more than half of
  its non-empty trimmed lines match at least one of the fixed patterns. A content without
  non-empty line is never accepted, and a content with a single non-empty line is accepted
  exactly when that line matches a pattern.
\<close>

theorem looksLikeShellCommands_majority:
  "(looksLikeShellCommands body \<longleftrightarrow>
      length (nonEmptyLines body) < 2 * length (filter commandLike (nonEmptyLines body))) \<and>
   (nonEmptyLines body = [] \<longrightarrow> \<not> looksLikeShellCommands body) \<and>
   (\<forall>l. nonEmptyLines body = [l] \<longrightarrow> (looksLikeShellCommands body \<longleftrightarrow> commandLike l)) \<and>
   (\<forall>l. commandLike l \<longleftrightarrow> (\<exists>pattern \<in> set shellPatterns. pattern l))"
proof -
  have 1: "looksLikeShellCommands body \<longleftrightarrow>
      length (nonEmptyLines body) < 2 * length (filter commandLike (nonEmptyLines body))"
  proof (cases "nonEmptyLines body = []")
    case True
    then show ?thesis by (simp add: looksLikeShellCommands_def)
  next
    case False
    then have pos: "0 < real (length (nonEmptyLines body))" by simp
    have "real (length (filter commandLike (nonEmptyLines body))) / real (length (nonEmptyLines body)) > 0.5
      \<longleftrightarrow> real (length (nonEmptyLines body)) < 2 * real (length (filter commandLike (nonEmptyLines body)))"
      using pos by (simp add: field_simps)
    also have "\<dots> \<longleftrightarrow> length (nonEmptyLines body) < 2 * length (filter commandLike (nonEmptyLines body))"
      by (metis of_nat_less_iff of_nat_mult of_nat_numeral)
    finally show ?thesis using False by (simp add: looksLikeShellCommands_def Let_def)
  qed
  have 2: "nonEmptyLines body = [] \<longrightarrow> \<not> looksLikeShellCommands body"
    by (simp add: looksLikeShellCommands_def)
  have 3: "\<forall>l. nonEmptyLines body = [l] \<longrightarrow> (looksLikeShellCommands body \<longleftrightarrow> commandLike l)"
    using 1 by auto
  have 4: "\<forall>l. commandLike l \<longleftrightarrow> (\<exists>pattern \<in> set shellPatterns. pattern l)"
    by (simp add: commandLike_def list_ex_iff)
  from 1 2 3 4 show ?thesis by blast
qed

theorem looksLikeShellCommands_majority_witness:
  "nonEmptyLines ''hello'' = [''hello''] \<and> \<not> commandLike ''hello'' \<and>
   \<not> looksLikeShellCommands ''hello'' \<and>
   nonEmptyLines ''  '' = [] \<and> \<not> looksLikeShellCommands ''  '' \<and>
   nonEmptyLines ''git status'' = [''git status''] \<and> looksLikeShellCommands ''git status''"
proof -
  have a: "nonEmptyLines ''hello'' = [''hello'']" by code_simp
  have b: "\<not> commandLike ''hello''" by code_simp
  have c: "nonEmptyLines ''  '' = []" by code_simp
  have d: "nonEmptyLines ''git status'' = [''git status'']" by code_simp
  have e: "commandLike ''git status''" by code_simp
  show ?thesis
    using looksLikeShellCommands_majority [of "''hello''"] looksLikeShellCommands_majority [of "''  ''"]
      looksLikeShellCommands_majority [of "''git status''"] a b c d e
    by simp
qed

section \<open>The matcher never throws; invariants of the detector\<close>

lemma matchesAny_total: "\<exists>b. matchesAny re ms doc = Inr b"
  by (induction ms) (auto split: sum.splits)

lemma matchesAny_skip:
  "testMatcher re m doc = Inl e \<Longrightarrow>
   matchesAny re (pre @ m # post) doc = matchesAny re (pre @ post) doc"
  by (induction pre) (auto split: sum.splits)

lemma matchesAny_result:
  "matchesAny re ms doc = Inr (\<exists>m \<in> set ms. testMatcher re m doc = Inr True)"
  by (induction ms) (auto split: sum.splits)

lemma testMatcher_result:
  "testMatcher re m doc =
     (case (re (languageIdRegex m), re (schemeRegex m), re (titleRegex m)) of
        (Some r1, Some r2, Some r3) \<Rightarrow> Inr (r1 (languageId doc) \<and> r2 (scheme doc) \<and> r3 (fileName doc))
      | _ \<Rightarrow> Inl SyntaxError)"
  by (simp add: testMatcher_def newRegExp_def Let_def split: option.splits)

text \<open>
  Claim C8. For every document and every list of matchers, the matcher evaluation returns
  a boolean and never an error: true exactly when some matcher of the list evaluates
  without error to true. A matcher evaluates with an error exactly when one of its three
  patterns makes the regular-expression constructor throw; such a matcher counts as not
  matching, and the result is the one obtained with that matcher removed, so the matchers
  after it are still evaluated.
\<close>

theorem matchesChat_never_throws:
  "matchesChat re cfg doc =
     Inr (\<exists>m \<in> set (chatMatchers cfg). testMatcher re m doc = Inr True) \<and>
   (\<forall>m. (\<exists>e. testMatcher re m doc = Inl e) \<longleftrightarrow>
        (re (languageIdRegex m) = None \<or> re (schemeRegex m) = None \<or> re (titleRegex m) = None)) \<and>
   (\<forall>m r1 r2 r3.
      re (languageIdRegex m) = Some r1 \<and> re (schemeRegex m) = Some r2 \<and>
      re (titleRegex m) = Some r3 \<longrightarrow>
      testMatcher re m doc = Inr (r1 (languageId doc) \<and> r2 (scheme doc) \<and> r3 (fileName doc))) \<and>
   (\<forall>pre m post e.
      chatMatchers cfg = pre @ m # post \<and> testMatcher re m doc = Inl e \<longrightarrow>
      matchesChat re cfg doc = matchesChat re (cfg\<lparr>chatMatchers := pre @ post\<rparr>) doc)"
proof -
  have 1: "matchesChat re cfg doc =
     Inr (\<exists>m \<in> set (chatMatchers cfg). testMatcher re m doc = Inr True)"
    by (simp add: matchesChat_def matchesAny_result)
  have 2: "\<forall>m. (\<exists>e. testMatcher re m doc = Inl e) \<longleftrightarrow>
        (re (languageIdRegex m) = None \<or> re (schemeRegex m) = None \<or> re (titleRegex m) = None)"
    by (auto simp: testMatcher_result split: option.splits)
  have 3: "\<forall>m r1 r2 r3.
      re (languageIdRegex m) = Some r1 \<and> re (schemeRegex m) = Some r2 \<and>
      re (titleRegex m) = Some r3 \<longrightarrow>
      testMatcher re m doc = Inr (r1 (languageId doc) \<and> r2 (scheme doc) \<and> r3 (fileName doc))"
    by (simp add: testMatcher_result)
  have 4: "\<forall>pre m post e.
      chatMatchers cfg = pre @ m # post \<and> testMatcher re m doc = Inl e \<longrightarrow>
      matchesChat re cfg doc = matchesChat re (cfg\<lparr>chatMatchers := pre @ post\<rparr>) doc"
    by (auto simp: matchesChat_def matchesAny_skip)
  from 1 2 3 4 show ?thesis by blast
qed

theorem matchesChat_never_throws_witness:
  "testMatcher exampleEngine (hd (chatMatchers exampleConfig)) (exampleDocument ''a'' 1) = Inl SyntaxError \<and>
   matchesChat exampleEngine exampleConfig (exampleDocument ''a'' 1) = Inr True \<and>
   matchesChat exampleEngine (exampleConfig\<lparr>chatMatchers := tl (chatMatchers exampleConfig)\<rparr>)
     (exampleDocument ''a'' 1) = Inr True \<and>
   matchesChat exampleEngine onlyInvalid (exampleDocument ''a'' 1) = Inr False"
proof -
  have a: "testMatcher exampleEngine (hd (chatMatchers exampleConfig)) (exampleDocument ''a'' 1) = Inl SyntaxError"
    by code_simp
  have b: "matchesChat exampleEngine exampleConfig (exampleDocument ''a'' 1) = Inr True" by code_simp
  have c: "chatMatchers exampleConfig = [] @ hd (chatMatchers exampleConfig) # tl (chatMatchers exampleConfig)"
    by (simp add: exampleConfig_def)
  have d: "chatMatchers onlyInvalid = [hd (chatMatchers exampleConfig)]" by (simp add: onlyInvalid_def)
  from matchesChat_never_throws [of exampleEngine exampleConfig "exampleDocument ''a'' 1"] a c
  have e: "matchesChat exampleEngine exampleConfig (exampleDocument ''a'' 1) =
        matchesChat exampleEngine (exampleConfig\<lparr>chatMatchers := [] @ tl (chatMatchers exampleConfig)\<rparr>)
          (exampleDocument ''a'' 1)" by blast
  from matchesChat_never_throws [of exampleEngine onlyInvalid "exampleDocument ''a'' 1"] a d
  have f: "matchesChat exampleEngine onlyInvalid (exampleDocument ''a'' 1) = Inr False" by simp
  from a b e f show ?thesis by simp
qed

lemma wf_distinct: "wellFormed w \<Longrightarrow> distinct (map handle (timers w))"
  by (simp add: wellFormed_def)

lemma wf_fresh: "wellFormed w \<Longrightarrow> t \<in> set (timers w) \<Longrightarrow> handle t < nextHandle w"
  by (simp add: wellFormed_def)

lemma timer_state:
  "wellFormed w \<Longrightarrow> t \<in> set (timers w) \<Longrightarrow>
   \<exists>st. getState w (timerKey t) = Some st \<and> timeout st = Some (handle t) \<and>
        timerContent t = getText (source st)"
  by (simp add: wellFormed_def)

lemma wf_source: "wellFormed w \<Longrightarrow> getState w k = Some st \<Longrightarrow> getDocumentKey (source st) = k"
  by (simp add: wellFormed_def)

lemma wf_live:
  "wellFormed w \<Longrightarrow> getState w k = Some st \<Longrightarrow> timeout st = Some h \<Longrightarrow>
   \<exists>t \<in> set (timers w). handle t = h \<and> timerKey t = k"
  unfolding wellFormed_def by (elim conjE allE [of _ k] allE [of _ st] allE [of _ h]) simp

lemma same_handle_same_timer:
  assumes "wellFormed w" "x \<in> set (timers w)" "y \<in> set (timers w)" "handle x = handle y"
  shows "x = y"
proof -
  from wf_distinct [OF assms(1)] have "inj_on handle (set (timers w))" by (simp add: distinct_map)
  with assms(2-4) show ?thesis by (meson inj_onD)
qed

lemma same_key_same_timer:
  assumes "wellFormed w" "x \<in> set (timers w)" "y \<in> set (timers w)" "timerKey x = timerKey y"
  shows "x = y"
proof -
  from timer_state [OF assms(1,2)] timer_state [OF assms(1,3)] assms(4)
  have "handle x = handle y" by auto
  with assms show ?thesis by (blast intro: same_handle_same_timer)
qed

lemma no_timers_for:
  assumes "\<forall>t \<in> set (timers w). timerKey t \<noteq> k"
  shows "filter (\<lambda>t. timerKey t \<noteq> k) (timers w) = timers w"
  using assms by (simp add: filter_id_conv)

lemma clearStateTimeout_by_key:
  assumes wf: "wellFormed w" and st: "getState w k = Some st"
  shows "clearStateTimeout st w = w\<lparr>timers := filter (\<lambda>t. timerKey t \<noteq> k) (timers w)\<rparr>"
proof (cases "timeout st")
  case None
  have "\<forall>t \<in> set (timers w). timerKey t \<noteq> k"
  proof
    fix t assume "t \<in> set (timers w)"
    from timer_state [OF wf this] st None show "timerKey t \<noteq> k" by auto
  qed
  then have "filter (\<lambda>t. timerKey t \<noteq> k) (timers w) = timers w" by (rule no_timers_for)
  with None show ?thesis by (simp add: clearStateTimeout_def)
next
  case (Some h)
  from wf_live [OF wf st Some] obtain t0 where
    t0: "t0 \<in> set (timers w)" "handle t0 = h" "timerKey t0 = k" by blast
  have "filter (\<lambda>t. handle t \<noteq> h) (timers w) = filter (\<lambda>t. timerKey t \<noteq> k) (timers w)"
  proof (rule filter_cong [OF refl])
    fix t assume t: "t \<in> set (timers w)"
    show "(handle t \<noteq> h) = (timerKey t \<noteq> k)"
      using same_handle_same_timer [OF wf t t0(1)] same_key_same_timer [OF wf t t0(1)] t0 by metis
  qed
  with Some show ?thesis by (simp add: clearStateTimeout_def clearTimeout_def)
qed

lemma no_state_no_timers:
  assumes "wellFormed w" "getState w k = None"
  shows "filter (\<lambda>t. timerKey t \<noteq> k) (timers w) = timers w"
proof (rule no_timers_for, rule ballI)
  fix t assume "t \<in> set (timers w)"
  from timer_state [OF assms(1) this] assms(2) show "timerKey t \<noteq> k" by auto
qed

lemma getState_simps [simp]:
  "getState (w\<lparr>documentStates := AList.update k v (documentStates w)\<rparr>) k' =
     (if k' = k then Some v else getState w k')"
  "getState (w\<lparr>documentStates := AList.delete k (documentStates w)\<rparr>) k' =
     (if k' = k then None else getState w k')"
  "getState (w\<lparr>documentStates := []\<rparr>) k' = None"
  "getState (w\<lparr>timers := ts\<rparr>) k' = getState w k'"
  "getState (w\<lparr>emitted := es\<rparr>) k' = getState w k'"
  "getState (w\<lparr>nextHandle := n\<rparr>) k' = getState w k'"
  "getState (w\<lparr>now := T\<rparr>) k' = getState w k'"
  "getState (w\<lparr>isEnabled := b\<rparr>) k' = getState w k'"
  "getState (w\<lparr>config := c\<rparr>) k' = getState w k'"
  "getState (w\<lparr>disposed := b\<rparr>) k' = getState w k'"
  by (simp_all add: getState_def update_conv' delete_conv')

lemma wf_disposed: "wellFormed w \<Longrightarrow> disposed w \<Longrightarrow> documentStates w = []"
  by (simp add: wellFormed_def)

lemma tracked_not_disposed: "wellFormed w \<Longrightarrow> getState w k = Some st \<Longrightarrow> \<not> disposed w"
  using wf_disposed [of w] by (auto simp: getState_def)

lemma disposed_no_timers:
  assumes "wellFormed w" "disposed w" shows "timers w = []"
proof (cases "timers w")
  case Nil
  then show ?thesis .
next
  case (Cons t ts)
  then have "t \<in> set (timers w)" by simp
  from timer_state [OF assms(1) this] tracked_not_disposed [OF assms(1)] assms(2)
  show ?thesis by blast
qed

lemma change_ignored:
  "\<not> tracks re ev w \<Longrightarrow> handleInput re (Change ev) w = w"
  by (auto simp: tracks_def onTextDocumentChange_def Let_def)

lemma onTextDocumentChange_tracked:
  assumes wf: "wellFormed w" and tr: "tracks re ev w"
  shows "onTextDocumentChange re ev w =
    w\<lparr>documentStates :=
        AList.update (getDocumentKey (eventDocument ev))
          ((editedState (eventDocument ev) (getState w (getDocumentKey (eventDocument ev))))
             \<lparr>timeout := Some (nextHandle w)\<rparr>)
          (documentStates w),
      timers := filter (\<lambda>t. timerKey t \<noteq> getDocumentKey (eventDocument ev)) (timers w)
                @ [armedTimer (eventDocument ev) w],
      nextHandle := Suc (nextHandle w)\<rparr>"
proof (cases "getState w (getDocumentKey (eventDocument ev))")
  case None
  from tr None show ?thesis
    by (simp add: tracks_def onTextDocumentChange_def Let_def setTimeout_def setState_def
        editedState_def armedTimer_def no_state_no_timers [OF wf None])
next
  case (Some cs)
  from tr Some show ?thesis
    by (simp add: tracks_def onTextDocumentChange_def Let_def setTimeout_def setState_def
        editedState_def armedTimer_def clearStateTimeout_by_key [OF wf Some])
qed

lemma change_tracked:
  assumes wf: "wellFormed w" and tr: "tracks re ev w"
  shows "handleInput re (Change ev) w =
    w\<lparr>documentStates :=
        AList.update (getDocumentKey (eventDocument ev))
          ((editedState (eventDocument ev) (getState w (getDocumentKey (eventDocument ev))))
             \<lparr>timeout := Some (nextHandle w)\<rparr>)
          (documentStates w),
      timers := filter (\<lambda>t. timerKey t \<noteq> getDocumentKey (eventDocument ev)) (timers w)
                @ [armedTimer (eventDocument ev) w],
      nextHandle := Suc (nextHandle w)\<rparr>"
proof -
  from tr have "handleInput re (Change ev) w = onTextDocumentChange re ev w"
    by (simp add: tracks_def)
  then show ?thesis by (simp only: onTextDocumentChange_tracked [OF wf tr])
qed

lemma onTextDocumentClose_eq:
  assumes wf: "wellFormed w"
  shows "onTextDocumentClose doc w =
    w\<lparr>documentStates := AList.delete (getDocumentKey doc) (documentStates w),
      timers := filter (\<lambda>t. timerKey t \<noteq> getDocumentKey doc) (timers w)\<rparr>"
proof (cases "getState w (getDocumentKey doc)")
  case None
  then have "getDocumentKey doc \<notin> fst ` set (documentStates w)"
    by (simp add: getState_def map_of_eq_None_iff)
  then have "AList.delete (getDocumentKey doc) (documentStates w) = documentStates w" by simp
  with None show ?thesis
    by (simp add: onTextDocumentClose_def Let_def no_state_no_timers [OF wf None])
next
  case (Some st)
  then show ?thesis
    by (simp add: onTextDocumentClose_def Let_def clearStateTimeout_by_key [OF wf Some])
qed

lemma close_eq:
  assumes wf: "wellFormed w"
  shows "handleInput re (Close doc) w =
    w\<lparr>documentStates := AList.delete (getDocumentKey doc) (documentStates w),
      timers := filter (\<lambda>t. timerKey t \<noteq> getDocumentKey doc) (timers w)\<rparr>"
proof (cases "disposed w")
  case True
  with wf_disposed [OF wf] disposed_no_timers [OF wf] show ?thesis by simp
next
  case False
  then show ?thesis by (simp add: onTextDocumentClose_eq [OF wf])
qed

declare handleInput.simps(1,2) [simp del]

lemma onDocumentIdle_eq:
  "getState w k = Some st \<Longrightarrow> \<not> disposed w \<Longrightarrow>
   onDocumentIdle k c w =
     w\<lparr>documentStates := AList.update k (idledState c st) (documentStates w),
       emitted := emitted w @ [idleEventOf c st]\<rparr>"
  by (simp add: onDocumentIdle_def Let_def setState_def idledState_def idleEventOf_def
      fireEvent_def)

lemma fireTimer_eq:
  assumes wf: "wellFormed w" and t: "t \<in> set (timers w)" and st: "getState w (timerKey t) = Some st"
  shows "fireTimer t w =
     w\<lparr>documentStates := AList.update (timerKey t) (idledState (timerContent t) st) (documentStates w),
       timers := filter (\<lambda>x. timerKey x \<noteq> timerKey t) (timers w),
       emitted := emitted w @ [idleEventOf (timerContent t) st]\<rparr>"
proof -
  have "filter (\<lambda>x. handle x \<noteq> handle t) (timers w) = filter (\<lambda>x. timerKey x \<noteq> timerKey t) (timers w)"
  proof (rule filter_cong [OF refl])
    fix x assume x: "x \<in> set (timers w)"
    show "(handle x \<noteq> handle t) = (timerKey x \<noteq> timerKey t)"
      using same_handle_same_timer [OF wf x t] same_key_same_timer [OF wf x t] by metis
  qed
  with st tracked_not_disposed [OF wf st] show ?thesis
    by (simp add: fireTimer_def onDocumentIdle_eq [where st = st])
qed

lemma triggerIdleForDocument_eq:
  assumes wf: "wellFormed w" and en: "isEnabled w" and st: "getState w (getDocumentKey doc) = Some st"
  shows "triggerIdleForDocument doc w =
     w\<lparr>documentStates := AList.update (getDocumentKey doc) (idledState (getText doc) st) (documentStates w),
       timers := filter (\<lambda>x. timerKey x \<noteq> getDocumentKey doc) (timers w),
       emitted := emitted w @ [idleEventOf (getText doc) st]\<rparr>"
  using en st tracked_not_disposed [OF wf st]
  by (simp add: triggerIdleForDocument_def Let_def clearStateTimeout_by_key [OF wf st]
      onDocumentIdle_eq [where st = st])

lemma triggerIdleForDocument_ignored:
  "\<not> isEnabled w \<or> getState w (getDocumentKey doc) = None \<Longrightarrow> triggerIdleForDocument doc w = w"
  by (auto simp: triggerIdleForDocument_def Let_def)

lemma clearStateTimeout_eq:
  "clearStateTimeout st w = w\<lparr>timers := filter (\<lambda>t. Some (handle t) \<noteq> timeout st) (timers w)\<rparr>"
  by (cases "timeout st") (auto simp: clearStateTimeout_def clearTimeout_def intro!: filter_cong)

lemma clear_fold:
  "foldl (\<lambda>w (key, state). clearStateTimeout state w) w l =
     w\<lparr>timers := filter (\<lambda>t. \<forall>(k, st) \<in> set l. Some (handle t) \<noteq> timeout st) (timers w)\<rparr>"
proof (induction l arbitrary: w)
  case Nil
  show ?case by simp
next
  case (Cons a l)
  obtain k st where a: "a = (k, st)" by (cases a)
  let ?f = "\<lambda>w (key, state). clearStateTimeout state w"
  let ?w1 = "clearStateTimeout st w"
  have "foldl ?f w (a # l) = foldl ?f ?w1 l" by (simp add: a)
  also have "\<dots> = ?w1\<lparr>timers := filter (\<lambda>t. \<forall>(k, st) \<in> set l. Some (handle t) \<noteq> timeout st) (timers ?w1)\<rparr>"
    by (rule Cons.IH)
  also have "\<dots> = w\<lparr>timers := filter (\<lambda>t. \<forall>(k, st) \<in> set (a # l). Some (handle t) \<noteq> timeout st) (timers w)\<rparr>"
    by (auto simp: clearStateTimeout_eq a intro!: filter_cong)
  finally show ?case .
qed

lemma clearAllStates_eq:
  assumes wf: "wellFormed w"
  shows "clearAllStates w = w\<lparr>documentStates := [], timers := []\<rparr>"
proof -
  have "filter (\<lambda>t. \<forall>(k, st) \<in> set (documentStates w). Some (handle t) \<noteq> timeout st) (timers w) = []"
  proof -
    have "\<forall>t \<in> set (timers w). \<not> (\<forall>(k, st) \<in> set (documentStates w). Some (handle t) \<noteq> timeout st)"
    proof
      fix t assume "t \<in> set (timers w)"
      from timer_state [OF wf this] obtain st where
        "getState w (timerKey t) = Some st" "timeout st = Some (handle t)" by blast
      then have "(timerKey t, st) \<in> set (documentStates w)" "timeout st = Some (handle t)"
        by (simp_all add: getState_def map_of_SomeD)
      then show "\<not> (\<forall>(k, st) \<in> set (documentStates w). Some (handle t) \<noteq> timeout st)" by force
    qed
    then show ?thesis by (simp add: filter_empty_conv)
  qed
  then show ?thesis by (simp add: clearAllStates_def clear_fold)
qed

lemma wf_fields [simp]:
  "wellFormed (w\<lparr>now := T\<rparr>) = wellFormed w"
  "wellFormed (w\<lparr>isEnabled := b\<rparr>) = wellFormed w"
  "wellFormed (w\<lparr>config := c\<rparr>) = wellFormed w"
  "wellFormed (w\<lparr>emitted := es\<rparr>) = wellFormed w"
  by (simp_all add: wellFormed_def)

lemma wf_armed:
  assumes wf: "wellFormed w"
    and src: "getDocumentKey (source st') = k"
    and tmo: "timeout st' = Some (nextHandle w)"
    and new: "handle new = nextHandle w" "timerKey new = k" "timerContent new = getText (source st')"
    and nd: "\<not> disposed w"
  shows "wellFormed (w\<lparr>documentStates := AList.update k st' (documentStates w),
                      timers := filter (\<lambda>t. timerKey t \<noteq> k) (timers w) @ [new],
                      nextHandle := Suc (nextHandle w)\<rparr>)"
  unfolding wellFormed_def
proof (intro conjI)
  let ?w = "w\<lparr>documentStates := AList.update k st' (documentStates w),
              timers := filter (\<lambda>t. timerKey t \<noteq> k) (timers w) @ [new],
              nextHandle := Suc (nextHandle w)\<rparr>"
  have old: "\<And>t. t \<in> set (timers w) \<Longrightarrow> handle t < nextHandle w" using wf by (rule wf_fresh)
  have fresh: "nextHandle w \<notin> handle ` set (timers w)"
    using old by (metis imageE less_irrefl)
  then have "handle new \<notin> handle ` set (filter (\<lambda>t. timerKey t \<noteq> k) (timers w))"
    using new(1) by auto
  then show "distinct (map handle (timers ?w))"
    using wf_distinct [OF wf] by (simp add: distinct_map_filter)
  show "\<forall>t \<in> set (timers ?w). handle t < nextHandle ?w"
    using old new(1) by (auto simp: less_Suc_eq)
  show "\<forall>t \<in> set (timers ?w). \<exists>st. getState ?w (timerKey t) = Some st \<and>
          timeout st = Some (handle t) \<and> timerContent t = getText (source st)"
    using timer_state [OF wf] tmo new by auto
  show "\<forall>k' st. getState ?w k' = Some st \<longrightarrow> getDocumentKey (source st) = k'"
    using wf_source [OF wf] src by auto
  show "\<forall>k' st h. getState ?w k' = Some st \<and> timeout st = Some h \<longrightarrow>
          (\<exists>t \<in> set (timers ?w). handle t = h \<and> timerKey t = k')"
  proof (intro allI impI)
    fix k' st h assume a: "getState ?w k' = Some st \<and> timeout st = Some h"
    show "\<exists>t \<in> set (timers ?w). handle t = h \<and> timerKey t = k'"
    proof (cases "k' = k")
      case True
      with a tmo new show ?thesis by auto
    next
      case False
      with a have "getState w k' = Some st" "timeout st = Some h" by auto
      from wf_live [OF wf this] False show ?thesis by auto
    qed
  qed
  show "disposed ?w \<longrightarrow> documentStates ?w = []" using nd by simp
qed

lemma wf_idled:
  assumes wf: "wellFormed w"
    and src: "getDocumentKey (source st') = k"
    and tmo: "timeout st' = None"
    and nd: "\<not> disposed w"
  shows "wellFormed (w\<lparr>documentStates := AList.update k st' (documentStates w),
                      timers := filter (\<lambda>t. timerKey t \<noteq> k) (timers w)\<rparr>)"
  unfolding wellFormed_def
proof (intro conjI)
  let ?w = "w\<lparr>documentStates := AList.update k st' (documentStates w),
              timers := filter (\<lambda>t. timerKey t \<noteq> k) (timers w)\<rparr>"
  show "distinct (map handle (timers ?w))"
    using wf_distinct [OF wf] by (simp add: distinct_map_filter)
  show "\<forall>t \<in> set (timers ?w). handle t < nextHandle ?w"
    using wf_fresh [OF wf] by auto
  show "\<forall>t \<in> set (timers ?w). \<exists>st. getState ?w (timerKey t) = Some st \<and>
          timeout st = Some (handle t) \<and> timerContent t = getText (source st)"
    using timer_state [OF wf] by auto
  show "\<forall>k' st. getState ?w k' = Some st \<longrightarrow> getDocumentKey (source st) = k'"
    using wf_source [OF wf] src by auto
  show "\<forall>k' st h. getState ?w k' = Some st \<and> timeout st = Some h \<longrightarrow>
          (\<exists>t \<in> set (timers ?w). handle t = h \<and> timerKey t = k')"
  proof (intro allI impI)
    fix k' st h assume a: "getState ?w k' = Some st \<and> timeout st = Some h"
    show "\<exists>t \<in> set (timers ?w). handle t = h \<and> timerKey t = k'"
    proof (cases "k' = k")
      case True
      with a tmo show ?thesis by auto
    next
      case False
      with a have "getState w k' = Some st" "timeout st = Some h" by auto
      from wf_live [OF wf this] False show ?thesis by auto
    qed
  qed
  show "disposed ?w \<longrightarrow> documentStates ?w = []" using nd by simp
qed

lemma wf_deleted:
  assumes wf: "wellFormed w"
  shows "wellFormed (w\<lparr>documentStates := AList.delete k (documentStates w),
                      timers := filter (\<lambda>t. timerKey t \<noteq> k) (timers w)\<rparr>)"
  unfolding wellFormed_def
proof (intro conjI)
  let ?w = "w\<lparr>documentStates := AList.delete k (documentStates w),
              timers := filter (\<lambda>t. timerKey t \<noteq> k) (timers w)\<rparr>"
  show "distinct (map handle (timers ?w))"
    using wf_distinct [OF wf] by (simp add: distinct_map_filter)
  show "\<forall>t \<in> set (timers ?w). handle t < nextHandle ?w"
    using wf_fresh [OF wf] by auto
  show "\<forall>t \<in> set (timers ?w). \<exists>st. getState ?w (timerKey t) = Some st \<and>
          timeout st = Some (handle t) \<and> timerContent t = getText (source st)"
    using timer_state [OF wf] by auto
  show "\<forall>k' st. getState ?w k' = Some st \<longrightarrow> getDocumentKey (source st) = k'"
    using wf_source [OF wf] by (auto split: if_splits)
  show "\<forall>k' st h. getState ?w k' = Some st \<and> timeout st = Some h \<longrightarrow>
          (\<exists>t \<in> set (timers ?w). handle t = h \<and> timerKey t = k')"
  proof (intro allI impI)
    fix k' st h assume a: "getState ?w k' = Some st \<and> timeout st = Some h"
    then have ne: "k' \<noteq> k" by (auto split: if_splits)
    with a have "getState w k' = Some st" "timeout st = Some h" by auto
    from wf_live [OF wf this] ne show "\<exists>t \<in> set (timers ?w). handle t = h \<and> timerKey t = k'"
      by auto
  qed
  show "disposed ?w \<longrightarrow> documentStates ?w = []" using wf_disposed [OF wf] by simp
qed

lemma wf_cleared:
  "wellFormed (w\<lparr>documentStates := [], timers := []\<rparr>)"
  "wellFormed (w\<lparr>documentStates := [], timers := [], disposed := b\<rparr>)"
  by (simp_all add: wellFormed_def)

lemma wf_newDetector: "wellFormed (newDetector cfg)"
  by (simp add: wellFormed_def newDetector_def getState_def)

lemma wf_change:
  assumes wf: "wellFormed w" shows "wellFormed (handleInput re (Change ev) w)"
proof (cases "tracks re ev w")
  case False
  with wf show ?thesis by (simp add: change_ignored)
next
  case True
  then have nd: "\<not> disposed w" by (simp add: tracks_def)
  have "getDocumentKey (source (editedState (eventDocument ev)
          (getState w (getDocumentKey (eventDocument ev))))) = getDocumentKey (eventDocument ev)"
    by (simp add: editedState_def split: option.splits)
  moreover have "getText (source (editedState (eventDocument ev)
          (getState w (getDocumentKey (eventDocument ev))))) = getText (eventDocument ev)"
    by (simp add: editedState_def split: option.splits)
  ultimately show ?thesis
    unfolding change_tracked [OF wf True]
    by (intro wf_armed [OF wf]) (simp_all add: armedTimer_def nd)
qed

lemma wf_onTextDocumentClose: "wellFormed w \<Longrightarrow> wellFormed (onTextDocumentClose doc w)"
  by (simp add: onTextDocumentClose_eq wf_deleted)

lemma wf_clearAllStates: "wellFormed w \<Longrightarrow> wellFormed (clearAllStates w)"
  by (simp add: clearAllStates_eq wf_cleared)

lemma clearAllStates_fields [simp]:
  "clearAllStates (w\<lparr>isEnabled := b\<rparr>) = (clearAllStates w)\<lparr>isEnabled := b\<rparr>"
  "clearAllStates (w\<lparr>config := c\<rparr>) = (clearAllStates w)\<lparr>config := c\<rparr>"
  by (simp_all add: clearAllStates_def clear_fold)

lemma wf_onConfigurationChange: "wellFormed w \<Longrightarrow> wellFormed (onConfigurationChange cfg w)"
  by (simp add: onConfigurationChange_def Let_def wf_clearAllStates)

lemma wf_setEnabled: "wellFormed w \<Longrightarrow> wellFormed (setEnabled b w)"
  by (simp add: setEnabled_def Let_def wf_clearAllStates)

lemma wf_fireTimer:
  assumes wf: "wellFormed w" and t: "t \<in> set (timers w)"
  shows "wellFormed (fireTimer t w)"
proof -
  from timer_state [OF wf t] obtain st where st: "getState w (timerKey t) = Some st" by blast
  have "wellFormed (w\<lparr>documentStates := AList.update (timerKey t) (idledState (timerContent t) st) (documentStates w),
       timers := filter (\<lambda>x. timerKey x \<noteq> timerKey t) (timers w)\<rparr>)"
    using wf_source [OF wf st] tracked_not_disposed [OF wf st]
    by (intro wf_idled [OF wf]) (simp_all add: idledState_def)
  then show ?thesis by (simp add: fireTimer_eq [OF wf t st])
qed

lemma wf_triggerIdleForDocument:
  assumes wf: "wellFormed w"
  shows "wellFormed (triggerIdleForDocument doc w)"
proof (cases "\<not> isEnabled w \<or> getState w (getDocumentKey doc) = None")
  case True
  with wf show ?thesis by (simp add: triggerIdleForDocument_ignored)
next
  case False
  then obtain st where en: "isEnabled w" and st: "getState w (getDocumentKey doc) = Some st" by auto
  have "wellFormed (w\<lparr>documentStates := AList.update (getDocumentKey doc) (idledState (getText doc) st) (documentStates w),
       timers := filter (\<lambda>x. timerKey x \<noteq> getDocumentKey doc) (timers w)\<rparr>)"
    using wf_source [OF wf st] tracked_not_disposed [OF wf st]
    by (intro wf_idled [OF wf]) (simp_all add: idledState_def)
  then show ?thesis by (simp add: triggerIdleForDocument_eq [OF wf en st])
qed

lemma wf_handleInput: "wellFormed w \<Longrightarrow> wellFormed (handleInput re i w)"
  by (cases i)
     (simp_all add: wf_change close_eq wf_deleted wf_onConfigurationChange
        wf_setEnabled wf_triggerIdleForDocument dispose_def clearAllStates_eq wf_cleared)

lemma reachable_wellFormed: "reachable re w \<Longrightarrow> wellFormed w"
  by (induction rule: reachable.induct)
     (simp_all add: wf_newDetector wf_handleInput wf_fireTimer)

lemma reachable_examplePending: "reachable exampleEngine examplePending"
  unfolding examplePending_def by (rule reachable.input [OF reachable.start])

section \<open>One timer per document; closing a document\<close>

lemma wf_distinct_timers: "wellFormed w \<Longrightarrow> distinct (timers w)"
  using wf_distinct [of w] by (simp add: distinct_map)

lemma length_le_one:
  assumes "distinct xs" and eq: "\<And>x y. x \<in> set xs \<Longrightarrow> y \<in> set xs \<Longrightarrow> x = y"
  shows "length xs \<le> 1"
proof (cases xs)
  case Nil
  then show ?thesis by simp
next
  case (Cons x ys)
  show ?thesis
  proof (cases ys)
    case Nil
    with Cons show ?thesis by simp
  next
    case (Cons y zs)
    with \<open>xs = x # ys\<close> have "x \<in> set xs" "y \<in> set xs" by simp_all
    then have "x = y" by (rule eq)
    with assms(1) \<open>xs = x # ys\<close> Cons show ?thesis by simp
  qed
qed

lemma timersFor_at_most_one:
  assumes wf: "wellFormed w" shows "length (timersFor k w) \<le> 1"
proof (rule length_le_one)
  show "distinct (timersFor k w)"
    using wf_distinct_timers [OF wf] by (simp add: timersFor_def)
next
  fix x y assume "x \<in> set (timersFor k w)" "y \<in> set (timersFor k w)"
  then have "x \<in> set (timers w)" "y \<in> set (timers w)" "timerKey x = timerKey y"
    by (simp_all add: timersFor_def)
  then show "x = y" by (rule same_key_same_timer [OF wf])
qed

lemma timers_not_added:
  assumes wf: "wellFormed w" and i: "\<And>ev. i = Change ev \<Longrightarrow> \<not> tracks re ev w"
  shows "set (timers (handleInput re i w)) \<subseteq> set (timers w)"
proof (cases i)
  case (Change ev)
  with i show ?thesis by (simp add: change_ignored)
next
  case (Close doc)
  then show ?thesis by (auto simp: close_eq [OF wf])
next
  case (ConfigurationChange cfg)
  then show ?thesis by (simp add: onConfigurationChange_def Let_def clearAllStates_eq [OF wf])
next
  case (SetEnabled b)
  then show ?thesis by (simp add: setEnabled_def Let_def clearAllStates_eq [OF wf])
next
  case (TriggerIdle doc)
  show ?thesis
  proof (cases "\<not> isEnabled w \<or> getState w (getDocumentKey doc) = None")
    case True
    with TriggerIdle show ?thesis by (simp add: triggerIdleForDocument_ignored)
  next
    case False
    then obtain st where "isEnabled w" "getState w (getDocumentKey doc) = Some st" by auto
    with TriggerIdle show ?thesis by (auto simp: triggerIdleForDocument_eq [OF wf])
  qed
next
  case Dispose
  then show ?thesis by (simp add: dispose_def clearAllStates_eq [OF wf])
qed

lemma arming_cancels:
  assumes wf: "wellFormed w"
    and t: "t \<in> set (timers (handleInput re i w))" "t \<notin> set (timers w)"
    and t': "t' \<in> set (timers w)" "timerKey t' = timerKey t"
  shows "t' \<notin> set (timers (handleInput re i w))"
proof -
  from t timers_not_added [OF wf, of i re] obtain ev where
    i: "i = Change ev" and tr: "tracks re ev w" by blast
  let ?k = "getDocumentKey (eventDocument ev)"
  have ts: "timers (handleInput re i w) =
      filter (\<lambda>t. timerKey t \<noteq> ?k) (timers w) @ [armedTimer (eventDocument ev) w]"
    by (simp add: i change_tracked [OF wf tr])
  with t have new: "t = armedTimer (eventDocument ev) w" by auto
  then have "timerKey t = ?k" by (simp add: armedTimer_def)
  with t' have "t' \<notin> set (filter (\<lambda>t. timerKey t \<noteq> ?k) (timers w))" by simp
  moreover from t' t(2) have "t' \<noteq> t" by auto
  ultimately show ?thesis using ts new by simp
qed

text \<open>
  Claim C6. In every reachable state each document has at most one live timer, and that
  timer is the one recorded in the document's state. Whenever an input arms a new timer,
  every timer the document had before is gone from the host afterwards.
\<close>

theorem one_timer_per_document:
  assumes "reachable re w"
  shows "(\<forall>k. length (timersFor k w) \<le> 1) \<and>
         (\<forall>t \<in> set (timers w). \<exists>st. getState w (timerKey t) = Some st \<and>
              timeout st = Some (handle t)) \<and>
         (\<forall>i. \<forall>t \<in> set (timers (handleInput re i w)). t \<notin> set (timers w) \<longrightarrow>
            (\<forall>t' \<in> set (timers w). timerKey t' = timerKey t \<longrightarrow>
               t' \<notin> set (timers (handleInput re i w))))"
proof -
  from assms have wf: "wellFormed w" by (rule reachable_wellFormed)
  have "\<forall>k. length (timersFor k w) \<le> 1" using timersFor_at_most_one [OF wf] by blast
  moreover have "\<forall>t \<in> set (timers w). \<exists>st. getState w (timerKey t) = Some st \<and>
              timeout st = Some (handle t)"
    using timer_state [OF wf] by blast
  moreover have "\<forall>i. \<forall>t \<in> set (timers (handleInput re i w)). t \<notin> set (timers w) \<longrightarrow>
            (\<forall>t' \<in> set (timers w). timerKey t' = timerKey t \<longrightarrow>
               t' \<notin> set (timers (handleInput re i w)))"
    using arming_cancels [OF wf] by blast
  ultimately show ?thesis by blast
qed

theorem one_timer_per_document_witness:
  "length (timersFor ''file:///a'' examplePending) = 1 \<and>
   map handle (timers examplePending) = [1] \<and>
   map handle (timers (handleInput exampleEngine (Change (exampleEdit ''ab'' 2)) examplePending)) = [2]"
proof -
  have a: "length (timersFor ''file:///a'' examplePending) = 1" by code_simp
  have b: "map handle (timers examplePending) = [1]" by code_simp
  have c: "map handle (timers (handleInput exampleEngine (Change (exampleEdit ''ab'' 2)) examplePending)) = [2]"
    by code_simp
  from one_timer_per_document [OF reachable_examplePending] a b c show ?thesis by simp
qed

lemma fireTimer_fields [simp]:
  "config (fireTimer t w) = config w"
  "isEnabled (fireTimer t w) = isEnabled w"
  "now (fireTimer t w) = now w"
  "nextHandle (fireTimer t w) = nextHandle w"
  "disposed (fireTimer t w) = disposed w"
  by (simp_all add: fireTimer_def onDocumentIdle_def Let_def setState_def fireEvent_def
      split: option.splits)

lemma fireTimer_frame:
  assumes wf: "wellFormed w" and t: "t \<in> set (timers w)" and k: "timerKey t \<noteq> k"
  shows "getState (fireTimer t w) k = getState w k"
    and "timersFor k (fireTimer t w) = timersFor k w"
    and "eventsFor k (fireTimer t w) = eventsFor k w"
proof -
  from timer_state [OF wf t] obtain st where st: "getState w (timerKey t) = Some st" by blast
  note eq = fireTimer_eq [OF wf t st]
  show "getState (fireTimer t w) k = getState w k" using k by (simp add: eq)
  show "timersFor k (fireTimer t w) = timersFor k w"
    using k by (auto simp: eq timersFor_def intro!: filter_cong)
  show "eventsFor k (fireTimer t w) = eventsFor k w"
    using k wf_source [OF wf st] by (simp add: eq eventsFor_def idleEventOf_def)
qed

lemma fireTimer_keeps:
  assumes wf: "wellFormed w" and t: "t \<in> set (timers w)"
    and y: "y \<in> set (timers w)" "y \<noteq> t"
  shows "y \<in> set (timers (fireTimer t w))"
proof -
  from timer_state [OF wf t] obtain st where st: "getState w (timerKey t) = Some st" by blast
  from y same_key_same_timer [OF wf y(1) t] have "timerKey y \<noteq> timerKey t" by blast
  with y show ?thesis by (simp add: fireTimer_eq [OF wf t st])
qed

lemma fold_fire:
  assumes "wellFormed w" "set L \<subseteq> set (timers w)" "distinct L" "Q w"
    and R: "\<And>t. t \<in> set L \<Longrightarrow> R t"
    and step: "\<And>w t. wellFormed w \<Longrightarrow> t \<in> set (timers w) \<Longrightarrow> R t \<Longrightarrow> Q w \<Longrightarrow> Q (fireTimer t w)"
  shows "Q (foldl (\<lambda>w t. fireTimer t w) w L) \<and> wellFormed (foldl (\<lambda>w t. fireTimer t w) w L)"
  using assms(1-5)
proof (induction L arbitrary: w)
  case Nil
  then show ?case by simp
next
  case (Cons x L)
  from Cons.prems have x: "x \<in> set (timers w)" and wf: "wellFormed w" by auto
  have "wellFormed (fireTimer x w)" using wf x by (rule wf_fireTimer)
  moreover have "set L \<subseteq> set (timers (fireTimer x w))"
  proof
    fix y assume y: "y \<in> set L"
    with Cons.prems have "y \<in> set (timers w)" "y \<noteq> x" by auto
    then show "y \<in> set (timers (fireTimer x w))" by (rule fireTimer_keeps [OF wf x])
  qed
  moreover have "distinct L" using Cons.prems by simp
  moreover have "Q (fireTimer x w)"
  proof (rule step [OF wf x])
    show "R x" using Cons.prems(5) by simp
    show "Q w" by (rule Cons.prems(4))
  qed
  moreover have "\<And>t. t \<in> set L \<Longrightarrow> R t" using Cons.prems by simp
  ultimately have "Q (foldl (\<lambda>w t. fireTimer t w) (fireTimer x w) L) \<and>
      wellFormed (foldl (\<lambda>w t. fireTimer t w) (fireTimer x w) L)"
    by (rule Cons.IH)
  then show ?case by simp
qed

lemma dueTimers_props:
  assumes "wellFormed w"
  shows "set (dueTimers T w) \<subseteq> set (timers w)" "distinct (dueTimers T w)"
    "\<forall>t \<in> set (dueTimers T w). deadline t \<le> T"
  using wf_distinct_timers [OF assms] by (auto simp: dueTimers_def)

lemma dueTimers_now [simp]: "dueTimers T (w\<lparr>now := n\<rparr>) = dueTimers T w"
  by (simp add: dueTimers_def)

lemma advance_invariant:
  assumes wf: "wellFormed w" and Q: "Q w"
    and R: "\<And>t. t \<in> set (timers w) \<Longrightarrow> deadline t \<le> T \<Longrightarrow> R t"
    and step: "\<And>w t. wellFormed w \<Longrightarrow> t \<in> set (timers w) \<Longrightarrow> R t \<Longrightarrow> Q w \<Longrightarrow> Q (fireTimer t w)"
    and clock: "\<And>w n. Q w \<Longrightarrow> Q (w\<lparr>now := n\<rparr>)"
  shows "Q (advance T w) \<and> wellFormed (advance T w)"
proof -
  let ?w = "w\<lparr>now := max (now w) T\<rparr>"
  have wf': "wellFormed ?w" using wf by simp
  have r: "\<And>t. t \<in> set (dueTimers T ?w) \<Longrightarrow> R t"
    using dueTimers_props [OF wf, of T] R by auto
  have q: "Q ?w" using Q by (rule clock)
  have "Q (foldl (\<lambda>w t. fireTimer t w) ?w (dueTimers T ?w)) \<and>
        wellFormed (foldl (\<lambda>w t. fireTimer t w) ?w (dueTimers T ?w))"
    by (rule fold_fire [where R = R, OF wf' dueTimers_props(1,2) [OF wf'] q r step])
  then show ?thesis by (simp add: advance_def)
qed

lemma wf_advance: assumes "wellFormed w" shows "wellFormed (advance T w)"
proof -
  have "True \<and> wellFormed (advance T w)"
    by (rule advance_invariant [where Q = "\<lambda>_. True" and R = "\<lambda>_. True", OF assms]) simp_all
  then show ?thesis by simp
qed

lemma handleInput_quiet:
  assumes wf: "wellFormed w" and none: "getState w k = None"
    and i: "\<And>ev. i = Change ev \<Longrightarrow> getDocumentKey (eventDocument ev) \<noteq> k"
  shows "getState (handleInput re i w) k = None \<and> eventsFor k (handleInput re i w) = eventsFor k w"
proof (cases i)
  case (Change ev)
  show ?thesis
  proof (cases "tracks re ev w")
    case False
    with Change none show ?thesis by (simp add: change_ignored)
  next
    case True
    from i Change have "getDocumentKey (eventDocument ev) \<noteq> k" by simp
    with Change none show ?thesis
      by (simp add: change_tracked [OF wf True] eventsFor_def)
  qed
next
  case (Close doc)
  with none show ?thesis by (simp add: close_eq [OF wf] eventsFor_def)
next
  case (ConfigurationChange cfg)
  with none show ?thesis
    by (simp add: onConfigurationChange_def Let_def clearAllStates_eq [OF wf] eventsFor_def)
next
  case (SetEnabled b)
  with none show ?thesis
    by (simp add: setEnabled_def Let_def clearAllStates_eq [OF wf] eventsFor_def)
next
  case (TriggerIdle doc)
  show ?thesis
  proof (cases "\<not> isEnabled w \<or> getState w (getDocumentKey doc) = None")
    case True
    with TriggerIdle none show ?thesis by (simp add: triggerIdleForDocument_ignored)
  next
    case False
    then obtain st where en: "isEnabled w" and st: "getState w (getDocumentKey doc) = Some st"
      by auto
    with none have "getDocumentKey doc \<noteq> k" by auto
    with TriggerIdle none wf_source [OF wf st] show ?thesis
      by (simp add: triggerIdleForDocument_eq [OF wf en st] eventsFor_def idleEventOf_def)
  qed
next
  case Dispose
  with none show ?thesis by (simp add: dispose_def clearAllStates_eq [OF wf] eventsFor_def)
qed

lemma eventsFor_now [simp]: "eventsFor k (w\<lparr>now := n\<rparr>) = eventsFor k w"
  by (simp add: eventsFor_def)

lemma timersFor_now [simp]: "timersFor k (w\<lparr>now := n\<rparr>) = timersFor k w"
  by (simp add: timersFor_def)

lemma advance_quiet:
  assumes wf: "wellFormed w" and none: "getState w k = None"
  shows "getState (advance T w) k = None \<and> eventsFor k (advance T w) = eventsFor k w"
proof -
  let ?Q = "\<lambda>w'. getState w' k = None \<and> eventsFor k w' = eventsFor k w"
  have "?Q (advance T w) \<and> wellFormed (advance T w)"
  proof (rule advance_invariant [where Q = ?Q and R = "\<lambda>_. True", OF wf])
    show "?Q w" using none by simp
  next
    fix w' t assume wf': "wellFormed w'" and t: "t \<in> set (timers w')" and q: "?Q w'"
    from timer_state [OF wf' t] q have "timerKey t \<noteq> k" by auto
    with fireTimer_frame [OF wf' t, of k] q show "?Q (fireTimer t w')" by simp
  qed simp_all
  then show ?thesis by simp
qed

lemma run_quiet:
  assumes "wellFormed w" "getState w k = None"
    and "\<forall>(T, i) \<in> set inputs. \<forall>ev. i = Change ev \<longrightarrow> getDocumentKey (eventDocument ev) \<noteq> k"
  shows "wellFormed (run re inputs w) \<and> getState (run re inputs w) k = None \<and>
         eventsFor k (run re inputs w) = eventsFor k w"
  using assms
proof (induction inputs arbitrary: w)
  case Nil
  then show ?case by simp
next
  case (Cons a inputs)
  obtain T i where a: "a = (T, i)" by (cases a)
  let ?w1 = "advance T w"
  let ?w2 = "handleInput re i ?w1"
  have wf1: "wellFormed ?w1" using Cons.prems(1) by (rule wf_advance)
  have q1: "getState ?w1 k = None" "eventsFor k ?w1 = eventsFor k w"
    using advance_quiet [OF Cons.prems(1,2)] by simp_all
  have i: "\<And>ev. i = Change ev \<Longrightarrow> getDocumentKey (eventDocument ev) \<noteq> k"
    using Cons.prems(3) a by auto
  have wf2: "wellFormed ?w2" using wf1 by (rule wf_handleInput)
  have q2: "getState ?w2 k = None" "eventsFor k ?w2 = eventsFor k ?w1"
    using handleInput_quiet [OF wf1 q1(1) i] by simp_all
  have rest: "\<forall>(T, i) \<in> set inputs. \<forall>ev. i = Change ev \<longrightarrow> getDocumentKey (eventDocument ev) \<noteq> k"
    using Cons.prems(3) by simp
  from Cons.IH [OF wf2 q2(1) rest] q2(2) q1(2) show ?case by (simp add: a)
qed

text \<open>
  Claim C7. After a close notification the document has no state entry and no live timer,
  whether or not a timer was pending. However time passes and whatever inputs follow, as
  long as none of them is a change of that document, no idle event for it is emitted.
\<close>

theorem close_silences_document:
  assumes "reachable re w"
  shows "getState (onTextDocumentClose doc w) (getDocumentKey doc) = None \<and>
         timersFor (getDocumentKey doc) (onTextDocumentClose doc w) = [] \<and>
         (\<forall>inputs T.
            (\<forall>(T', i) \<in> set inputs. \<forall>ev. i = Change ev \<longrightarrow>
                getDocumentKey (eventDocument ev) \<noteq> getDocumentKey doc) \<longrightarrow>
            eventsFor (getDocumentKey doc) (advance T (run re inputs (onTextDocumentClose doc w))) =
              eventsFor (getDocumentKey doc) w)"
proof -
  let ?k = "getDocumentKey doc"
  let ?w = "onTextDocumentClose doc w"
  from assms have wf: "wellFormed w" by (rule reachable_wellFormed)
  have wf': "wellFormed ?w" using wf by (rule wf_onTextDocumentClose)
  have none: "getState ?w ?k = None" by (simp add: onTextDocumentClose_eq [OF wf])
  have tm: "timersFor ?k ?w = []" by (simp add: onTextDocumentClose_eq [OF wf] timersFor_def)
  have ev: "eventsFor ?k ?w = eventsFor ?k w" by (simp add: onTextDocumentClose_eq [OF wf] eventsFor_def)
  have "\<forall>inputs T.
            (\<forall>(T', i) \<in> set inputs. \<forall>ev. i = Change ev \<longrightarrow>
                getDocumentKey (eventDocument ev) \<noteq> ?k) \<longrightarrow>
            eventsFor ?k (advance T (run re inputs ?w)) = eventsFor ?k w"
  proof (intro allI impI)
    fix inputs :: "(nat \<times> Input) list" and T :: nat
    assume a: "\<forall>(T', i) \<in> set inputs. \<forall>ev. i = Change ev \<longrightarrow> getDocumentKey (eventDocument ev) \<noteq> ?k"
    have r: "wellFormed (run re inputs ?w)" "getState (run re inputs ?w) ?k = None"
      "eventsFor ?k (run re inputs ?w) = eventsFor ?k ?w"
      using run_quiet [of ?w ?k inputs re] wf' none a by blast+
    from advance_quiet [OF r(1,2), of T] r(3) ev
    show "eventsFor ?k (advance T (run re inputs ?w)) = eventsFor ?k w" by simp
  qed
  with none tm show ?thesis by blast
qed

theorem close_silences_document_witness:
  "timersFor ''file:///a'' examplePending \<noteq> [] \<and>
   eventsFor ''file:///a'' examplePending = [] \<and>
   eventsFor ''file:///a'' (advance 5000 examplePending) \<noteq> [] \<and>
   eventsFor ''file:///a'' (advance 5000 (onTextDocumentClose (exampleDocument ''a'' 1) examplePending)) = []"
proof -
  have a: "timersFor ''file:///a'' examplePending \<noteq> []" by code_simp
  have b: "eventsFor ''file:///a'' examplePending = []" by code_simp
  have c: "eventsFor ''file:///a'' (advance 5000 examplePending) \<noteq> []" by code_simp
  have k: "getDocumentKey (exampleDocument ''a'' 1) = ''file:///a''" by code_simp
  from close_silences_document [OF reachable_examplePending, of "exampleDocument ''a'' 1"]
  have "eventsFor ''file:///a'' (advance 5000 (run exampleEngine [] (onTextDocumentClose (exampleDocument ''a'' 1) examplePending)))
        = eventsFor ''file:///a'' examplePending"
    unfolding k by (elim conjE allE [of _ "[]"] allE [of _ 5000]) simp
  with a b c show ?thesis by simp
qed

section \<open>Debouncing and the content of an idle event\<close>

lemma fold_fields [simp]:
  "config (foldl (\<lambda>w t. fireTimer t w) w L) = config w"
  "isEnabled (foldl (\<lambda>w t. fireTimer t w) w L) = isEnabled w"
  "now (foldl (\<lambda>w t. fireTimer t w) w L) = now w"
  "nextHandle (foldl (\<lambda>w t. fireTimer t w) w L) = nextHandle w"
  "disposed (foldl (\<lambda>w t. fireTimer t w) w L) = disposed w"
  by (induction L arbitrary: w) simp_all

lemma advance_fields [simp]:
  "config (advance T w) = config w"
  "isEnabled (advance T w) = isEnabled w"
  "now (advance T w) = max (now w) T"
  "nextHandle (advance T w) = nextHandle w"
  "disposed (advance T w) = disposed w"
  by (simp_all add: advance_def)

lemma fold_fire_frame:
  assumes wf: "wellFormed w" and sub: "set L \<subseteq> set (timers w)" and d: "distinct L"
    and k: "\<And>t. t \<in> set L \<Longrightarrow> timerKey t \<noteq> k"
  shows "getState (foldl (\<lambda>w t. fireTimer t w) w L) k = getState w k"
    and "timersFor k (foldl (\<lambda>w t. fireTimer t w) w L) = timersFor k w"
    and "eventsFor k (foldl (\<lambda>w t. fireTimer t w) w L) = eventsFor k w"
    and "wellFormed (foldl (\<lambda>w t. fireTimer t w) w L)"
proof -
  let ?Q = "\<lambda>w'. getState w' k = getState w k \<and> timersFor k w' = timersFor k w \<and>
                 eventsFor k w' = eventsFor k w"
  have "?Q (foldl (\<lambda>w t. fireTimer t w) w L) \<and> wellFormed (foldl (\<lambda>w t. fireTimer t w) w L)"
  proof (rule fold_fire [where Q = ?Q and R = "\<lambda>t. timerKey t \<noteq> k", OF wf sub d])
    show "?Q w" by simp
  next
    fix t assume "t \<in> set L" then show "timerKey t \<noteq> k" by (rule k)
  next
    fix w' t assume "wellFormed w'" "t \<in> set (timers w')" "timerKey t \<noteq> k" "?Q w'"
    with fireTimer_frame [of w' t k] show "?Q (fireTimer t w')" by simp
  qed
  then show "getState (foldl (\<lambda>w t. fireTimer t w) w L) k = getState w k"
    and "timersFor k (foldl (\<lambda>w t. fireTimer t w) w L) = timersFor k w"
    and "eventsFor k (foldl (\<lambda>w t. fireTimer t w) w L) = eventsFor k w"
    and "wellFormed (foldl (\<lambda>w t. fireTimer t w) w L)" by simp_all
qed

lemma fold_fire_keeps:
  assumes wf: "wellFormed w" and sub: "set L \<subseteq> set (timers w)" and d: "distinct L"
    and y: "y \<in> set (timers w)" "y \<notin> set L"
  shows "y \<in> set (timers (foldl (\<lambda>w t. fireTimer t w) w L))"
proof -
  let ?Q = "\<lambda>w'. y \<in> set (timers w')"
  have "?Q (foldl (\<lambda>w t. fireTimer t w) w L) \<and> wellFormed (foldl (\<lambda>w t. fireTimer t w) w L)"
  proof (rule fold_fire [where Q = ?Q and R = "\<lambda>t. t \<noteq> y", OF wf sub d])
    show "?Q w" by (rule y(1))
  next
    fix t assume "t \<in> set L" with y(2) show "t \<noteq> y" by auto
  next
    fix w' t assume "wellFormed w'" "t \<in> set (timers w')" "t \<noteq> y" "?Q w'"
    then show "?Q (fireTimer t w')" using fireTimer_keeps [of w' t y] by simp
  qed
  then show ?thesis by simp
qed

lemma advance_frame:
  assumes wf: "wellFormed w" and late: "\<And>t. t \<in> set (timersFor k w) \<Longrightarrow> T < deadline t"
  shows "getState (advance T w) k = getState w k"
    and "timersFor k (advance T w) = timersFor k w"
    and "eventsFor k (advance T w) = eventsFor k w"
proof -
  let ?w = "w\<lparr>now := max (now w) T\<rparr>"
  have wf': "wellFormed ?w" using wf by simp
  have k: "\<And>t. t \<in> set (dueTimers T ?w) \<Longrightarrow> timerKey t \<noteq> k"
  proof
    fix t assume t: "t \<in> set (dueTimers T ?w)" and "timerKey t = k"
    then have "t \<in> set (timersFor k w)" "deadline t \<le> T"
      by (simp_all add: dueTimers_def timersFor_def)
    with late [of t] show False by simp
  qed
  note fr = fold_fire_frame [OF wf' dueTimers_props(1,2) [OF wf'] k]
  show "getState (advance T w) k = getState w k" using fr(1) by (simp add: advance_def)
  show "timersFor k (advance T w) = timersFor k w" using fr(2) by (simp add: advance_def)
  show "eventsFor k (advance T w) = eventsFor k w" using fr(3) by (simp add: advance_def)
qed

lemma advance_fires:
  assumes wf: "wellFormed w" and one: "timersFor k w = [t]" and due: "deadline t \<le> T"
    and st: "getState w k = Some st"
  shows "getState (advance T w) k = Some (idledState (timerContent t) st)"
    and "eventsFor k (advance T w) = eventsFor k w @ [idleEventOf (timerContent t) st]"
    and "timersFor k (advance T w) = []"
proof -
  let ?w = "w\<lparr>now := max (now w) T\<rparr>"
  let ?f = "\<lambda>w t. fireTimer t w"
  have wf0: "wellFormed ?w" using wf by simp
  have "t \<in> set (timersFor k w)" by (simp add: one)
  then have t: "t \<in> set (timers w)" "timerKey t = k" by (simp_all add: timersFor_def)
  with due have "t \<in> set (dueTimers T ?w)" by (simp add: dueTimers_def)
  then obtain L1 L2 where L: "dueTimers T ?w = L1 @ t # L2" by (meson split_list)
  have sub: "set (L1 @ t # L2) \<subseteq> set (timers ?w)" and dist: "distinct (L1 @ t # L2)"
    using dueTimers_props(1,2) [OF wf0, of T] L by simp_all
  have only: "\<And>x. x \<in> set (timers w) \<Longrightarrow> timerKey x = k \<Longrightarrow> x = t"
  proof -
    fix x assume "x \<in> set (timers w)" "timerKey x = k"
    then have "x \<in> set (timersFor k w)" by (simp add: timersFor_def)
    with one show "x = t" by simp
  qed
  have k1: "\<And>x. x \<in> set L1 \<Longrightarrow> timerKey x \<noteq> k" using sub dist only by auto
  have k2: "\<And>x. x \<in> set L2 \<Longrightarrow> timerKey x \<noteq> k" using sub dist only by auto
  let ?w1 = "foldl ?f ?w L1"
  have sub1: "set L1 \<subseteq> set (timers ?w)" and d1: "distinct L1" using sub dist by simp_all
  note fr1 = fold_fire_frame [OF wf0 sub1 d1 k1]
  have wf1: "wellFormed ?w1" by (rule fr1(4))
  have st1: "getState ?w1 (timerKey t) = Some st" using fr1(1) st t(2) by simp
  have t1: "t \<in> set (timers ?w1)"
    using fold_fire_keeps [OF wf0 sub1 d1, of t] t(1) dist by simp
  let ?w2 = "fireTimer t ?w1"
  note eq = fireTimer_eq [OF wf1 t1 st1]
  have wf2: "wellFormed ?w2" using wf1 t1 by (rule wf_fireTimer)
  have sub2: "set L2 \<subseteq> set (timers ?w2)"
  proof
    fix y assume y: "y \<in> set L2"
    with sub dist have "y \<in> set (timers ?w)" "y \<notin> set L1" "y \<noteq> t" by auto
    with fold_fire_keeps [OF wf0 sub1 d1, of y] have "y \<in> set (timers ?w1)" by simp
    with \<open>y \<noteq> t\<close> show "y \<in> set (timers ?w2)" using fireTimer_keeps [OF wf1 t1] by simp
  qed
  have d2: "distinct L2" using dist by simp
  note fr2 = fold_fire_frame [OF wf2 sub2 d2 k2]
  from L have L': "dueTimers T w = L1 @ t # L2" by simp
  have adv: "advance T w = foldl ?f ?w2 L2" by (simp add: advance_def L')
  have src: "getDocumentKey (source st) = k" using wf_source [OF wf1 st1] t(2) by simp
  show "getState (advance T w) k = Some (idledState (timerContent t) st)"
    using fr2(1) t(2) by (simp add: adv eq)
  show "eventsFor k (advance T w) = eventsFor k w @ [idleEventOf (timerContent t) st]"
    using fr2(3) fr1(3) src by (simp add: adv eq eventsFor_def idleEventOf_def)
  show "timersFor k (advance T w) = []"
    using fr2(2) t(2) by (simp add: adv eq timersFor_def)
qed

lemma change_view:
  assumes wf: "wellFormed w" and tr: "tracks re ev w"
  shows "getState (handleInput re (Change ev) w) (getDocumentKey (eventDocument ev)) =
           Some ((editedState (eventDocument ev) (getState w (getDocumentKey (eventDocument ev))))
                   \<lparr>timeout := Some (nextHandle w)\<rparr>)"
    and "timersFor (getDocumentKey (eventDocument ev)) (handleInput re (Change ev) w) =
           [armedTimer (eventDocument ev) w]"
    and "eventsFor k (handleInput re (Change ev) w) = eventsFor k w"
    and "config (handleInput re (Change ev) w) = config w"
    and "isEnabled (handleInput re (Change ev) w) = isEnabled w"
    and "now (handleInput re (Change ev) w) = now w"
    and "disposed (handleInput re (Change ev) w) = disposed w"
  by (simp_all add: change_tracked [OF wf tr] timersFor_def eventsFor_def armedTimer_def)

lemma edit_step:
  assumes wf: "wellFormed w" and en: "isEnabled w" and now: "now w \<le> T"
    and nd: "\<not> disposed w"
    and dl: "timerDelay (silenceMs (config w)) = silenceMs (config w)"
    and late: "\<And>t. t \<in> set (timersFor k w) \<Longrightarrow> T < deadline t"
    and ev: "getDocumentKey (eventDocument ev) = k"
      "matchesChat re (config w) (eventDocument ev) = Inr True" "contentChanges ev \<noteq> []"
  shows "pendingAt k (config w) (eventsFor k w)
           (case getState w k of None \<Rightarrow> 1 | Some st \<Rightarrow> changeCount st + 1)
           T (getText (eventDocument ev)) (handleInput re (Change ev) (advance T w))"
proof -
  let ?w1 = "advance T w"
  let ?w2 = "handleInput re (Change ev) ?w1"
  have wf1: "wellFormed ?w1" using wf by (rule wf_advance)
  note fr = advance_frame [OF wf late]
  have tr: "tracks re ev ?w1" using en ev nd by (simp add: tracks_def)
  note cv = change_view [OF wf1 tr]
  have wf2: "wellFormed ?w2" using wf1 by (rule wf_change)
  have n1: "now ?w1 = T" using now by simp
  have "getState ?w2 k = Some ((editedState (eventDocument ev) (getState w k))\<lparr>timeout := Some (nextHandle ?w1)\<rparr>)"
    using cv(1) ev(1) fr(1) by simp
  moreover have "changeCount ((editedState (eventDocument ev) (getState w k))\<lparr>timeout := Some (nextHandle ?w1)\<rparr>)
      = (case getState w k of None \<Rightarrow> 1 | Some st \<Rightarrow> changeCount st + 1)"
    by (simp add: editedState_def split: option.splits)
  moreover have "timersFor k ?w2 = [armedTimer (eventDocument ev) ?w1]" using cv(2) ev(1) by simp
  moreover have "deadline (armedTimer (eventDocument ev) ?w1) = T + silenceMs (config w)"
    using n1 dl by (simp add: armedTimer_def)
  moreover have "timerContent (armedTimer (eventDocument ev) ?w1) = getText (eventDocument ev)"
    by (simp add: armedTimer_def)
  moreover have "eventsFor k ?w2 = eventsFor k w" using cv(3) [of k] fr(3) by simp
  moreover have "isEnabled ?w2" "config ?w2 = config w" "now ?w2 = T" "\<not> disposed ?w2"
    using cv(4,5,6,7) en n1 nd by simp_all
  ultimately show ?thesis using wf2 dl unfolding pendingAt_def by auto
qed

lemma editRun_pending:
  assumes "pendingAt k cfg E c T body w"
    and "spaced (silenceMs cfg) T (map fst edits)"
    and "\<forall>(T', ev) \<in> set edits. getDocumentKey (eventDocument ev) = k \<and>
           matchesChat re cfg (eventDocument ev) = Inr True \<and> contentChanges ev \<noteq> []"
  shows "pendingAt k cfg E (c + length edits) (last (T # map fst edits))
           (last (body # map (\<lambda>(T', ev). getText (eventDocument ev)) edits)) (editRun re edits w)"
  using assms
proof (induction edits arbitrary: w c T body)
  case Nil
  then show ?case by (simp add: editRun_def)
next
  case (Cons a edits)
  obtain T' ev where a: "a = (T', ev)" by (cases a)
  from Cons.prems(1) obtain st t where p:
    "wellFormed w" "isEnabled w" "config w = cfg" "now w = T" "eventsFor k w = E"
    "getState w k = Some st" "changeCount st = c" "timersFor k w = [t]"
    "deadline t = T + silenceMs cfg" "\<not> disposed w"
    "timerDelay (silenceMs cfg) = silenceMs cfg"
    unfolding pendingAt_def by blast
  from Cons.prems(2) a have sp: "T \<le> T'" "T' < T + silenceMs cfg" "spaced (silenceMs cfg) T' (map fst edits)"
    by simp_all
  from Cons.prems(3) a have ev: "getDocumentKey (eventDocument ev) = k"
    "matchesChat re (config w) (eventDocument ev) = Inr True" "contentChanges ev \<noteq> []"
    using p(3) by simp_all
  have late: "\<And>x. x \<in> set (timersFor k w) \<Longrightarrow> T' < deadline x" using p(8,9) sp(2) by simp
  have now: "now w \<le> T'" using p(4) sp(1) by simp
  have dl: "timerDelay (silenceMs (config w)) = silenceMs (config w)" using p(3,11) by simp
  from edit_step [OF p(1,2) now p(10) dl late ev] p(3,5,6,7)
  have p1: "pendingAt k cfg E (c + 1) T' (getText (eventDocument ev))
              (handleInput re (Change ev) (advance T' w))" by simp
  have rest: "\<forall>(T', ev) \<in> set edits. getDocumentKey (eventDocument ev) = k \<and>
           matchesChat re cfg (eventDocument ev) = Inr True \<and> contentChanges ev \<noteq> []"
    using Cons.prems(3) by simp
  from Cons.IH [OF p1 sp(3) rest] show ?case by (simp add: a editRun_def)
qed

lemma pending_outcome:
  assumes p: "pendingAt k cfg E c T0 body w"
  shows "T < T0 + silenceMs cfg \<Longrightarrow> eventsFor k (advance T w) = E"
    and "T0 + silenceMs cfg \<le> T \<Longrightarrow>
         \<exists>e st. eventsFor k (advance T w) = E @ [e] \<and> changesSinceLastIdle e = c \<and>
                currentContent e = body \<and>
                getState (advance T w) k = Some st \<and> changeCount st = 0"
proof -
  from p obtain st t where q:
    "wellFormed w" "eventsFor k w = E"
    "getState w k = Some st" "changeCount st = c" "timersFor k w = [t]"
    "deadline t = T0 + silenceMs cfg" "timerContent t = body"
    unfolding pendingAt_def by blast
  { assume "T < T0 + silenceMs cfg"
    then have "\<And>x. x \<in> set (timersFor k w) \<Longrightarrow> T < deadline x" using q(5,6) by simp
    from advance_frame(3) [OF q(1) this] q(2) show "eventsFor k (advance T w) = E" by simp }
  { assume "T0 + silenceMs cfg \<le> T"
    then have due: "deadline t \<le> T" using q(6) by simp
    note f = advance_fires [OF q(1) q(5) due q(3)]
    have "eventsFor k (advance T w) = E @ [idleEventOf body st]" using f(2) q(2,7) by simp
    moreover have "changesSinceLastIdle (idleEventOf body st) = c" "currentContent (idleEventOf body st) = body"
      using q(4) by (simp_all add: idleEventOf_def)
    moreover have "getState (advance T w) k = Some (idledState body st)" using f(1) q(7) by simp
    moreover have "changeCount (idledState body st) = 0" by (simp add: idledState_def)
    ultimately show "\<exists>e st. eventsFor k (advance T w) = E @ [e] \<and> changesSinceLastIdle e = c \<and>
                currentContent e = body \<and>
                getState (advance T w) k = Some st \<and> changeCount st = 0" by blast }
qed

text \<open>
  Claim C1, amended. Take a reachable detector that is enabled and not disposed, a
  silence duration between 1 and 2147483647 ms (the delays the host's timer waits for),
  a document that is untracked or has just fired, and \<open>N\<close> tracked edits of that document,
  the first not before the current time and each later one less than the silence duration
  after its predecessor. Up to the silence duration after the last edit no idle event for
  the document is emitted; from then on exactly one has been emitted, its change count is
  \<open>N\<close>, and the stored change count is back to 0.
\<close>

theorem debounce_single_event:
  assumes "reachable re w" and "isEnabled w" and "\<not> disposed w"
    and "1 \<le> silenceMs (config w)" and "silenceMs (config w) \<le> 2147483647"
    and "getState w k = None \<or>
         (\<exists>st. getState w k = Some st \<and> timeout st = None \<and> changeCount st = 0)"
    and "now w \<le> T1"
    and "spaced (silenceMs (config w)) T1 (map fst rest)"
    and "\<forall>(T, ev) \<in> set ((T1, ev1) # rest). getDocumentKey (eventDocument ev) = k \<and>
           matchesChat re (config w) (eventDocument ev) = Inr True \<and> contentChanges ev \<noteq> []"
  shows "(\<forall>T. T < last (T1 # map fst rest) + silenceMs (config w) \<longrightarrow>
            eventsFor k (advance T (editRun re ((T1, ev1) # rest) w)) = eventsFor k w) \<and>
         (\<forall>T. last (T1 # map fst rest) + silenceMs (config w) \<le> T \<longrightarrow>
            (\<exists>e st. eventsFor k (advance T (editRun re ((T1, ev1) # rest) w)) = eventsFor k w @ [e] \<and>
                    changesSinceLastIdle e = length ((T1, ev1) # rest) \<and>
                    currentContent e = getText (eventDocument (snd (last ((T1, ev1) # rest)))) \<and>
                    getState (advance T (editRun re ((T1, ev1) # rest) w)) k = Some st \<and>
                    changeCount st = 0))"
proof -
  from assms(1) have wf: "wellFormed w" by (rule reachable_wellFormed)
  have dl: "timerDelay (silenceMs (config w)) = silenceMs (config w)"
    using assms(4,5) by (simp add: timerDelay_def)
  have none: "\<And>t. t \<in> set (timersFor k w) \<Longrightarrow> T1 < deadline t"
  proof -
    fix t assume "t \<in> set (timersFor k w)"
    then have t: "t \<in> set (timers w)" "timerKey t = k" by (simp_all add: timersFor_def)
    from timer_state [OF wf t(1)] t(2) assms(6) show "T1 < deadline t" by auto
  qed
  from assms(9) have ev1: "getDocumentKey (eventDocument ev1) = k"
    "matchesChat re (config w) (eventDocument ev1) = Inr True" "contentChanges ev1 \<noteq> []"
    by simp_all
  have one: "(case getState w k of None \<Rightarrow> 1 | Some st \<Rightarrow> changeCount st + 1) = 1"
    using assms(6) by auto
  from edit_step [OF wf assms(2,7,3) dl none ev1] one
  have p1: "pendingAt k (config w) (eventsFor k w) 1 T1 (getText (eventDocument ev1))
              (handleInput re (Change ev1) (advance T1 w))" by simp
  have rest: "\<forall>(T, ev) \<in> set rest. getDocumentKey (eventDocument ev) = k \<and>
           matchesChat re (config w) (eventDocument ev) = Inr True \<and> contentChanges ev \<noteq> []"
    using assms(9) by simp
  have run: "editRun re ((T1, ev1) # rest) w = editRun re rest (handleInput re (Change ev1) (advance T1 w))"
    by (simp add: editRun_def)
  have body: "last (getText (eventDocument ev1) # map (\<lambda>(T', ev). getText (eventDocument ev)) rest)
      = getText (eventDocument (snd (last ((T1, ev1) # rest))))"
    by (cases "rest = []") (simp_all add: last_map case_prod_beta)
  from editRun_pending [OF p1 assms(8) rest] run body
  have p: "pendingAt k (config w) (eventsFor k w) (length ((T1, ev1) # rest))
             (last (T1 # map fst rest))
             (getText (eventDocument (snd (last ((T1, ev1) # rest)))))
             (editRun re ((T1, ev1) # rest) w)" by simp
  from pending_outcome [OF p] show ?thesis by blast
qed

theorem debounce_single_event_witness:
  "eventsFor ''file:///a'' (advance 1899 (editRun exampleEngine exampleEdits (newDetector exampleConfig))) = [] \<and>
   (\<exists>e st. eventsFor ''file:///a'' (advance 1900 (editRun exampleEngine exampleEdits (newDetector exampleConfig))) = [e] \<and>
      changesSinceLastIdle e = 3 \<and> currentContent e = ''abc'' \<and>
      getState (advance 1900 (editRun exampleEngine exampleEdits (newDetector exampleConfig))) ''file:///a'' = Some st \<and>
      changeCount st = 0)"
proof -
  let ?w = "newDetector exampleConfig"
  let ?rest = "[(200, exampleEdit ''ab'' 2), (400, exampleEdit ''abc'' 3)]"
  have r: "reachable exampleEngine ?w" by (rule reachable.start)
  have en: "isEnabled ?w" by code_simp
  have nd: "\<not> disposed ?w" by code_simp
  have idle: "getState ?w ''file:///a'' = None \<or>
      (\<exists>st. getState ?w ''file:///a'' = Some st \<and> timeout st = None \<and> changeCount st = 0)"
    by (rule disjI1) code_simp
  have now: "now ?w \<le> 0" by code_simp
  have sil: "silenceMs (config ?w) = 1500" by code_simp
  have lo: "1 \<le> silenceMs (config ?w)" and hi: "silenceMs (config ?w) \<le> 2147483647"
    unfolding sil by simp_all
  have sp: "spaced (silenceMs (config ?w)) 0 (map fst ?rest)" unfolding sil by simp
  have ok: "\<forall>(T, ev) \<in> set ((0, exampleEdit ''a'' 1) # ?rest).
      getDocumentKey (eventDocument ev) = ''file:///a'' \<and>
      matchesChat exampleEngine (config ?w) (eventDocument ev) = Inr True \<and> contentChanges ev \<noteq> []"
    by code_simp
  have ev0: "eventsFor ''file:///a'' ?w = []" by code_simp
  have lst: "getText (eventDocument (snd (last ((0, exampleEdit ''a'' 1) # ?rest)))) = ''abc''"
    by code_simp
  note th = debounce_single_event [OF r en nd lo hi idle now sp ok]
  have a: "eventsFor ''file:///a'' (advance 1899 (editRun exampleEngine exampleEdits ?w)) = []"
    using th ev0 unfolding sil exampleEdits_def by simp
  have b: "\<exists>e st. eventsFor ''file:///a'' (advance 1900 (editRun exampleEngine exampleEdits ?w)) = [e] \<and>
      changesSinceLastIdle e = 3 \<and> currentContent e = ''abc'' \<and>
      getState (advance 1900 (editRun exampleEngine exampleEdits ?w)) ''file:///a'' = Some st \<and>
      changeCount st = 0"
    using conjunct2 [OF th, THEN spec, of 1900] ev0 lst unfolding sil exampleEdits_def
    by (simp add: numeral_3_eq_3)
  from a b show ?thesis by blast
qed

text \<open>
  Claim C1 as stated fails for a silence duration above 2147483647 ms: the host's timer
  then waits 1 ms only. Two edits 50 ms apart, well within the configured silence
  duration, have produced two idle events with change count 1 each by the time 150 ms.
\<close>

theorem debounce_single_event_counterexample:
  "silenceMs longConfig = 2147483648 \<and>
   map fst longEdits = [0, 50] \<and> spaced (silenceMs longConfig) 0 [50] \<and>
   map (getDocumentKey \<circ> eventDocument \<circ> snd) longEdits = [''file:///a'', ''file:///a''] \<and>
   map (matchesChat exampleEngine longConfig \<circ> eventDocument \<circ> snd) longEdits
     = [Inr True, Inr True] \<and>
   map (length \<circ> contentChanges \<circ> snd) longEdits = [1, 1] \<and>
   isEnabled (newDetector longConfig) \<and>
   map changesSinceLastIdle
     (eventsFor ''file:///a'' (advance 150 (editRun exampleEngine longEdits (newDetector longConfig))))
     = [1, 1]"
  by code_simp









end
